theory Spec2Isabelle
  imports Main "HOL-Library.Word" "HOL-Library.Log_Nat"
begin

unbundle bit_operations_syntax

section \<open>Adaptive SHiP-D: a shallow embedding of \<^verbatim>\<open>066_adaptive_ship_d.cc\<close>\<close>

text \<open>
  The policy keeps all of its state in file-level static arrays and scalars. The
  embedding collects them in one record that every entry point takes and returns.
  A C array is a total function from its index (a natural number); the entries that
  exist are the ones below the array bound, and every statement about "all entries"
  quantifies over those. Indexing outside the bounds is undefined behaviour in C++:
  what the model computes there says nothing about the program, and the reachable
  states are generated by calls with \<open>seti < LLC_SETS\<close> and \<open>way < LLC_WAYS\<close> only,
  which is the caller's contract.
\<close>

subsection \<open>Machine types and constants\<close>

type_synonym u8 = "8 word"
type_synonym u32 = "32 word"
type_synonym u64 = "64 word"

definition NUM_CORE :: nat where "NUM_CORE = 1"
definition LLC_SETS :: nat where "LLC_SETS = NUM_CORE * 2048"
definition LLC_WAYS :: nat where "LLC_WAYS = 16"
definition MAX_RRPV :: u8 where "MAX_RRPV = 3"
definition SIG_TABLE_SIZE :: nat where "SIG_TABLE_SIZE = 2048"
definition SHCT_INIT :: u8 where "SHCT_INIT = 2"
definition SHCT_MAX :: u8 where "SHCT_MAX = 3"
definition SHCT_THRESHOLD :: u8 where "SHCT_THRESHOLD = 2"
definition STCT_INIT :: u8 where "STCT_INIT = 1"
definition STCT_MAX :: u8 where "STCT_MAX = 3"
definition EPOCH_LENGTH :: u64 where "EPOCH_LENGTH = 100000"
definition INVALID_BLK :: u64 where "INVALID_BLK = - 1"

subsection \<open>The \<^verbatim>\<open>double\<close> values of the epoch monitor\<close>

text \<open>
  \<^verbatim>\<open>MonitorEpoch\<close> computes two ratios of 64-bit counters in \<^verbatim>\<open>double\<close>,
  subtracts two of them and compares against decimal literals. A finite double is a
  rational number, and each IEEE-754 binary64 operation returns the exact result
  rounded to 53 significant bits, ties to even (\<open>fl\<close>). The operands here are
  integers below \<open>2 ^ 64\<close>, their quotients and differences of such quotients, so
  neither overflow, underflow nor NaN arises and the exponent range needs no bound.
\<close>

type_synonym double = rat

definition pow2 :: "int \<Rightarrow> rat" where
  "pow2 e = (if 0 \<le> e then 2 ^ nat e else 1 / 2 ^ nat (- e))"

definition ilog2 :: "rat \<Rightarrow> int" where
  "ilog2 x = (let (p, q) = quotient_of x;
                  d = bitlen p - bitlen q
              in if pow2 d \<le> x then d else d - 1)"

definition round_ties_even :: "rat \<Rightarrow> int" where
  "round_ties_even m = (let f = \<lfloor>m\<rfloor>; d = m - of_int f
     in if d < 1 / 2 then f else if 1 / 2 < d then f + 1
        else if even f then f else f + 1)"

definition fl :: "rat \<Rightarrow> double" where
  "fl x = (if x = 0 then 0
           else let a = \<bar>x\<bar>; e = ilog2 a
                in sgn x * of_int (round_ties_even (a * pow2 (52 - e))) * pow2 (e - 52))"

definition u64_to_double :: "u64 \<Rightarrow> double" where
  "u64_to_double n = fl (of_int (uint n))"

definition ddiv :: "double \<Rightarrow> double \<Rightarrow> double" where
  "ddiv a b = fl (a / b)"

definition dsub :: "double \<Rightarrow> double \<Rightarrow> double" where
  "dsub a b = fl (a - b)"

definition fabs :: "double \<Rightarrow> double" where
  "fabs a = \<bar>a\<bar>"

definition PHASE_CHANGE_DELTA :: double where "PHASE_CHANGE_DELTA = fl (5 / 100)"
definition STREAM_LOW_RATIO :: double where "STREAM_LOW_RATIO = fl (10 / 100)"
definition STREAM_HIGH_RATIO :: double where "STREAM_HIGH_RATIO = fl (70 / 100)"

subsection \<open>The replacement state\<close>

record policy_state =
  RRPV :: "nat \<Rightarrow> nat \<Rightarrow> u8"
  valid_entries :: "nat \<Rightarrow> nat \<Rightarrow> bool"
  sig_mem :: "nat \<Rightarrow> nat \<Rightarrow> u32"
  has_hit :: "nat \<Rightarrow> nat \<Rightarrow> bool"
  is_streaming :: "nat \<Rightarrow> nat \<Rightarrow> bool"
  SHCT :: "nat \<Rightarrow> u8"
  STCT :: "nat \<Rightarrow> u8"
  last_addr :: "nat \<Rightarrow> u64"
  g_STCT_THRESHOLD :: u8
  stat_hits :: u64
  stat_misses :: u64
  epoch_accesses :: u64
  epoch_hits :: u64
  epoch_misses :: u64
  stream_inserts :: u64
  stream_hits :: u64
  stream_misses :: u64
  prev_miss_rate :: double

subsection \<open>Signature hash\<close>

definition GetSignature :: "u64 \<Rightarrow> u32" where
  "GetSignature PC =
     ucast ((PC XOR drop_bit 12 PC XOR drop_bit 20 PC) AND (word_of_nat SIG_TABLE_SIZE - 1))"

subsection \<open>Victim selection\<close>

text \<open>
  \<^verbatim>\<open>for (w = 0; w < LLC_WAYS; w++) if (P w) return w;\<close> started at way \<open>w\<close>:
  the first way from \<open>w\<close> on that satisfies \<open>P\<close>, or \<open>None\<close> when the loop
  falls through.
\<close>

function scan_ways :: "(nat \<Rightarrow> bool) \<Rightarrow> nat \<Rightarrow> nat option" where
  "scan_ways P w =
     (if w < LLC_WAYS then (if P w then Some w else scan_ways P (w + 1)) else None)"
  by pat_completeness auto
termination
  by (relation "measure (\<lambda>(P, w). LLC_WAYS - w)") auto

text \<open>
  The aging loop over one set's row of \<open>RRPV\<close>:
  \<^verbatim>\<open>for (w = 0; w < LLC_WAYS; w++) if (RRPV[set][w] < MAX_RRPV) RRPV[set][w]++;\<close>
\<close>

function age_ways :: "(nat \<Rightarrow> u8) \<Rightarrow> nat \<Rightarrow> (nat \<Rightarrow> u8)" where
  "age_ways r w =
     (if w < LLC_WAYS
      then age_ways (if r w < MAX_RRPV then r(w := r w + 1) else r) (w + 1)
      else r)"
  by pat_completeness auto
termination
  by (relation "measure (\<lambda>(r, w). LLC_WAYS - w)") auto

text \<open>The two loops of one round, each started at way 0.\<close>

definition max_rrpv_way :: "(nat \<Rightarrow> u8) \<Rightarrow> nat option" where
  "max_rrpv_way r = scan_ways (\<lambda>w. r w = MAX_RRPV) 0"

definition age_pass :: "(nat \<Rightarrow> u8) \<Rightarrow> (nat \<Rightarrow> u8)" where
  "age_pass r = age_ways r 0"

text \<open>
  The \<^verbatim>\<open>while (true)\<close> loop of \<^verbatim>\<open>FindVictimWay\<close>. It has no exit but the
  \<^verbatim>\<open>return\<close>, so it is a partial function: \<open>None\<close> stands for a loop that never
  returns.
\<close>

partial_function (option) rrip_loop :: "(nat \<Rightarrow> u8) \<Rightarrow> (nat \<times> (nat \<Rightarrow> u8)) option" where
  "rrip_loop r =
     (case max_rrpv_way r of
        Some w \<Rightarrow> Some (w, r)
      | None \<Rightarrow> rrip_loop (age_pass r))"

declare rrip_loop.simps [code]

definition FindVictimWay :: "policy_state \<Rightarrow> nat \<Rightarrow> (nat \<times> policy_state) option" where
  "FindVictimWay s seti =
     (case scan_ways (\<lambda>w. \<not> valid_entries s seti w) 0 of
        Some w \<Rightarrow> Some (w, s)
      | None \<Rightarrow>
          (case rrip_loop (RRPV s seti) of
             None \<Rightarrow> None
           | Some (w, r) \<Rightarrow> Some (w, s\<lparr>RRPV := (RRPV s)(seti := r)\<rparr>)))"

subsection \<open>Epoch monitor\<close>

definition cur_miss_rate :: "policy_state \<Rightarrow> double" where
  "cur_miss_rate s =
     (if epoch_accesses s \<noteq> 0
      then ddiv (u64_to_double (epoch_misses s)) (u64_to_double (epoch_accesses s))
      else 0)"

definition stream_ratio :: "policy_state \<Rightarrow> double" where
  "stream_ratio s =
     (if stream_inserts s \<noteq> 0
      then ddiv (u64_to_double (stream_hits s)) (u64_to_double (stream_inserts s))
      else 0)"

definition MonitorEpoch :: "policy_state \<Rightarrow> policy_state" where
  "MonitorEpoch s =
     (let cur_mr = cur_miss_rate s;
          s1 = (if PHASE_CHANGE_DELTA \<le> fabs (dsub cur_mr (prev_miss_rate s))
                then s\<lparr>STCT := (\<lambda>i. if i < SIG_TABLE_SIZE then STCT_INIT else STCT s i),
                       last_addr := (\<lambda>i. if i < SIG_TABLE_SIZE then INVALID_BLK else last_addr s i)\<rparr>
                else s);
          ratio = stream_ratio s1;
          s2 = (if ratio < STREAM_LOW_RATIO \<and> g_STCT_THRESHOLD s1 < STCT_MAX
                then s1\<lparr>g_STCT_THRESHOLD := g_STCT_THRESHOLD s1 + 1\<rparr>
                else if STREAM_HIGH_RATIO < ratio \<and> 1 < g_STCT_THRESHOLD s1
                then s1\<lparr>g_STCT_THRESHOLD := g_STCT_THRESHOLD s1 - 1\<rparr>
                else s1)
      in s2\<lparr>prev_miss_rate := cur_mr,
             epoch_accesses := 0, epoch_hits := 0, epoch_misses := 0,
             stream_inserts := 0, stream_hits := 0, stream_misses := 0\<rparr>)"

subsection \<open>Entry points\<close>

definition InitReplacementState :: policy_state where
  "InitReplacementState =
     \<lparr>RRPV = (\<lambda>s w. MAX_RRPV),
      valid_entries = (\<lambda>s w. False),
      sig_mem = (\<lambda>s w. 0),
      has_hit = (\<lambda>s w. False),
      is_streaming = (\<lambda>s w. False),
      SHCT = (\<lambda>i. SHCT_INIT),
      STCT = (\<lambda>i. STCT_INIT),
      last_addr = (\<lambda>i. INVALID_BLK),
      g_STCT_THRESHOLD = STCT_INIT + 1,
      stat_hits = 0, stat_misses = 0,
      epoch_accesses = 0, epoch_hits = 0, epoch_misses = 0,
      stream_inserts = 0, stream_hits = 0, stream_misses = 0,
      prev_miss_rate = 0\<rparr>"

text \<open>Lines 124-135: the stream detector, run for the incoming signature and block.\<close>

definition stream_detect :: "policy_state \<Rightarrow> u32 \<Rightarrow> u64 \<Rightarrow> policy_state" where
  "stream_detect s sig blk_addr =
     (let i = unat sig;
          s1 = (if last_addr s i \<noteq> INVALID_BLK
                then (let delta = blk_addr - last_addr s i
                      in if delta = 1 \<or> delta = - 1
                         then (if STCT s i < STCT_MAX then s\<lparr>STCT := (STCT s)(i := STCT s i + 1)\<rparr> else s)
                         else (if 0 < STCT s i then s\<lparr>STCT := (STCT s)(i := STCT s i - 1)\<rparr> else s))
                else s)
      in s1\<lparr>last_addr := (last_addr s1)(i := blk_addr)\<rparr>)"

text \<open>Lines 139-148: the penalties for the line that \<open>way\<close> held.\<close>

definition evict_penalty :: "policy_state \<Rightarrow> nat \<Rightarrow> nat \<Rightarrow> policy_state" where
  "evict_penalty s seti way =
     (if valid_entries s seti way
      then (let old_sig = unat (sig_mem s seti way);
                s1 = (if \<not> has_hit s seti way \<and> 0 < SHCT s old_sig
                      then s\<lparr>SHCT := (SHCT s)(old_sig := SHCT s old_sig - 1)\<rparr> else s)
            in if is_streaming s1 seti way \<and> \<not> has_hit s1 seti way
               then s1\<lparr>stream_misses := stream_misses s1 + 1\<rparr> else s1)
      else s)"

text \<open>Lines 150-164: installing the new line in \<open>way\<close>.\<close>

definition install_line :: "policy_state \<Rightarrow> nat \<Rightarrow> nat \<Rightarrow> u32 \<Rightarrow> policy_state" where
  "install_line s seti way sig =
     (let s1 = s\<lparr>sig_mem := (sig_mem s)(seti := (sig_mem s seti)(way := sig)),
                 valid_entries := (valid_entries s)(seti := (valid_entries s seti)(way := True)),
                 has_hit := (has_hit s)(seti := (has_hit s seti)(way := False))\<rparr>;
          stream = (g_STCT_THRESHOLD s1 \<le> STCT s1 (unat sig));
          s2 = s1\<lparr>is_streaming := (is_streaming s1)(seti := (is_streaming s1 seti)(way := stream))\<rparr>;
          s3 = (if stream then s2\<lparr>stream_inserts := stream_inserts s2 + 1\<rparr> else s2);
          v = (if SHCT_THRESHOLD \<le> SHCT s3 (unat sig) then 0
               else if stream then 1 else MAX_RRPV)
      in s3\<lparr>RRPV := (RRPV s3)(seti := (RRPV s3 seti)(way := v))\<rparr>)"

text \<open>
  \<^verbatim>\<open>current_set\<close> points at the simulator's \<^verbatim>\<open>BLOCK\<close> array for the set. The
  class is declared in \<^verbatim>\<open>champsim_crc2.h\<close>, outside this file, and the policy never
  looks inside it, so the type is left unspecified.
\<close>

typedecl BLOCK

definition GetVictimInSet ::
  "policy_state \<Rightarrow> u32 \<Rightarrow> nat \<Rightarrow> BLOCK list \<Rightarrow> u64 \<Rightarrow> u64 \<Rightarrow> u32 \<Rightarrow> (nat \<times> policy_state) option" where
  "GetVictimInSet s cpu seti current_set PC paddr type =
     (let sig = GetSignature PC;
          blk_addr = drop_bit 6 paddr;
          s1 = stream_detect s sig blk_addr
      in case FindVictimWay s1 seti of
           None \<Rightarrow> None
         | Some (way, s2) \<Rightarrow> Some (way, install_line (evict_penalty s2 seti way) seti way sig))"

definition UpdateReplacementState ::
  "policy_state \<Rightarrow> u32 \<Rightarrow> nat \<Rightarrow> nat \<Rightarrow> u64 \<Rightarrow> u64 \<Rightarrow> u64 \<Rightarrow> u32 \<Rightarrow> u8 \<Rightarrow> policy_state" where
  "UpdateReplacementState s cpu seti way paddr PC victim_addr type hit =
     (let s1 = s\<lparr>epoch_accesses := epoch_accesses s + 1\<rparr>;
          s2 = (if hit \<noteq> 0
                then (let a = s1\<lparr>stat_hits := stat_hits s1 + 1, epoch_hits := epoch_hits s1 + 1,
                                  has_hit := (has_hit s1)(seti := (has_hit s1 seti)(way := True)),
                                  RRPV := (RRPV s1)(seti := (RRPV s1 seti)(way := 0))\<rparr>;
                          sig = unat (sig_mem a seti way);
                          b = (if SHCT a sig < SHCT_MAX then a\<lparr>SHCT := (SHCT a)(sig := SHCT a sig + 1)\<rparr> else a)
                      in if is_streaming b seti way then b\<lparr>stream_hits := stream_hits b + 1\<rparr> else b)
                else s1\<lparr>stat_misses := stat_misses s1 + 1, epoch_misses := epoch_misses s1 + 1\<rparr>)
      in if EPOCH_LENGTH \<le> epoch_accesses s2 then MonitorEpoch s2 else s2)"

subsection \<open>State predicates\<close>

text \<open>
  The victim search of a set can only return when some way of the set is invalid or
  holds an \<open>rrpv\<close> no greater than \<open>MAX_RRPV\<close>. The cells are \<^verbatim>\<open>uint8_t\<close>, and
  a set whose ways are all valid with values above 3 would keep the loop spinning.
\<close>

definition victim_exists :: "policy_state \<Rightarrow> nat \<Rightarrow> bool" where
  "victim_exists s seti \<longleftrightarrow>
     (\<exists>w<LLC_WAYS. \<not> valid_entries s seti w \<or> RRPV s seti w \<le> MAX_RRPV)"

text \<open>
  The states the policy can be in: the simulator calls \<^verbatim>\<open>InitReplacementState\<close>
  once and then \<^verbatim>\<open>GetVictimInSet\<close> and \<^verbatim>\<open>UpdateReplacementState\<close> in any order,
  with a set index below \<open>LLC_SETS\<close> and a way index below \<open>LLC_WAYS\<close>.
\<close>

inductive reachable :: "policy_state \<Rightarrow> bool" where
  reach_init: "reachable InitReplacementState"
| reach_victim:
    "reachable s \<Longrightarrow> seti < LLC_SETS \<Longrightarrow>
     GetVictimInSet s cpu seti current_set PC paddr type = Some (way, s') \<Longrightarrow> reachable s'"
| reach_update:
    "reachable s \<Longrightarrow> seti < LLC_SETS \<Longrightarrow> way < LLC_WAYS \<Longrightarrow>
     reachable (UpdateReplacementState s cpu seti way paddr PC victim_addr type hit)"

definition counters_in_range :: "policy_state \<Rightarrow> bool" where
  "counters_in_range s \<longleftrightarrow>
     (\<forall>seti<LLC_SETS. \<forall>w<LLC_WAYS. RRPV s seti w \<le> 3)
     \<and> (\<forall>i<SIG_TABLE_SIZE. SHCT s i \<le> 3)
     \<and> (\<forall>i<SIG_TABLE_SIZE. STCT s i \<le> 3)
     \<and> 1 \<le> g_STCT_THRESHOLD s \<and> g_STCT_THRESHOLD s \<le> 3"

subsection \<open>Driving the policy with misses\<close>

text \<open>
  One miss as the simulator issues it: \<^verbatim>\<open>GetVictimInSet\<close> picks the way and
  installs the line, then \<^verbatim>\<open>UpdateReplacementState\<close> is told about the access with
  \<open>hit = 0\<close>. The result records the chosen way and the \<open>rrpv\<close> the line was
  installed with.
\<close>

definition miss_access ::
  "policy_state \<Rightarrow> nat \<Rightarrow> u64 \<Rightarrow> u64 \<Rightarrow> ((nat \<times> u8) \<times> policy_state) option" where
  "miss_access s seti PC paddr =
     (case GetVictimInSet s 0 seti [] PC paddr 0 of
        None \<Rightarrow> None
      | Some (way, s') \<Rightarrow>
          Some ((way, RRPV s' seti way), UpdateReplacementState s' 0 seti way paddr PC 0 0 0))"

fun run_misses ::
  "policy_state \<Rightarrow> nat \<Rightarrow> (u64 \<times> u64) list \<Rightarrow> ((nat \<times> u8) list \<times> policy_state) option" where
  "run_misses s seti [] = Some ([], s)"
| "run_misses s seti ((PC, paddr) # rest) =
     (case miss_access s seti PC paddr of
        None \<Rightarrow> None
      | Some (ins, s1) \<Rightarrow>
          (case run_misses s1 seti rest of
             None \<Rightarrow> None
           | Some (inss, s2) \<Rightarrow> Some (ins # inss, s2)))"

definition signatures :: "(u64 \<times> u64) list \<Rightarrow> u32 list" where
  "signatures accs = map (\<lambda>(PC, paddr). GetSignature PC) accs"

definition block_addrs :: "(u64 \<times> u64) list \<Rightarrow> u64 list" where
  "block_addrs accs = map (\<lambda>(PC, paddr). drop_bit 6 paddr) accs"

text \<open>Sixteen accesses \<open>(PC, paddr)\<close> with signatures 0..15 and block addresses 0..15.\<close>

definition first16 :: "(u64 \<times> u64) list" where
  "first16 = [(0, 0), (1, 64), (2, 128), (3, 192), (4, 256), (5, 320), (6, 384), (7, 448),
              (8, 512), (9, 576), (10, 640), (11, 704), (12, 768), (13, 832), (14, 896),
              (15, 960)]"

text \<open>
  The set \<open>seti\<close> after \<open>k\<close> such misses on fresh signatures: ways below \<open>k\<close> are
  the valid ones and sit at \<open>rrpv = 0\<close>, and the predictor tables still hold their
  initial values.
\<close>

definition filled :: "policy_state \<Rightarrow> nat \<Rightarrow> nat \<Rightarrow> bool" where
  "filled s seti k \<longleftrightarrow>
     (\<forall>w<LLC_WAYS. valid_entries s seti w \<longleftrightarrow> w < k)
     \<and> (\<forall>w<k. RRPV s seti w = 0)
     \<and> (\<forall>i. SHCT s i = SHCT_INIT) \<and> (\<forall>i. STCT s i = STCT_INIT)
     \<and> g_STCT_THRESHOLD s = STCT_INIT + 1
     \<and> epoch_accesses s = of_nat k"

subsection \<open>Example states\<close>

text \<open>A cache whose sets are full of never-hit lines at \<open>rrpv = 0\<close>.\<close>

definition full_state :: policy_state where
  "full_state = InitReplacementState\<lparr>valid_entries := (\<lambda>s w. True), RRPV := (\<lambda>s w. 0)\<rparr>"

text \<open>A state in which every signature has already been seen at block 7.\<close>

definition seen_state :: policy_state where
  "seen_state = InitReplacementState\<lparr>last_addr := (\<lambda>i. 7)\<rparr>"

text \<open>The state after a hit on set 0, way 0 right after initialisation.\<close>

definition hit_state :: policy_state where
  "hit_state = UpdateReplacementState InitReplacementState 0 0 0 0 0 0 0 1"




section \<open>Verification\<close>

subsection \<open>Facts about the loops\<close>

declare scan_ways.simps [simp del] age_ways.simps [simp del]

lemma scan_ways_SomeD:
  "scan_ways P w = Some i \<Longrightarrow> w \<le> i \<and> i < LLC_WAYS \<and> P i \<and> (\<forall>j. w \<le> j \<and> j < i \<longrightarrow> \<not> P j)"
proof (induction P w rule: scan_ways.induct)
  case (1 P w)
  show ?case
  proof (cases "w < LLC_WAYS")
    case False
    with "1.prems" show ?thesis by (simp add: scan_ways.simps [of P w])
  next
    case inb: True
    show ?thesis
    proof (cases "P w")
      case True
      with inb "1.prems" show ?thesis by (auto simp add: scan_ways.simps [of P w])
    next
      case False
      with inb "1.prems" have "scan_ways P (w + 1) = Some i"
        by (simp add: scan_ways.simps [of P w])
      with "1.IH" inb False
      have ih: "w + 1 \<le> i \<and> i < LLC_WAYS \<and> P i \<and> (\<forall>j. w + 1 \<le> j \<and> j < i \<longrightarrow> \<not> P j)"
        by simp
      have "\<not> P j" if "w \<le> j" "j < i" for j
      proof (cases "j = w")
        case True
        with False show ?thesis by simp
      next
        case False
        with that ih show ?thesis by simp
      qed
      with ih show ?thesis by simp
    qed
  qed
qed

lemma scan_ways_None_iff:
  "scan_ways P w = None \<longleftrightarrow> (\<forall>j. w \<le> j \<and> j < LLC_WAYS \<longrightarrow> \<not> P j)"
proof (induction P w rule: scan_ways.induct)
  case (1 P w)
  show ?case
  proof (cases "w < LLC_WAYS")
    case False
    then show ?thesis by (auto simp add: scan_ways.simps [of P w])
  next
    case inb: True
    show ?thesis
    proof (cases "P w")
      case True
      with inb show ?thesis by (auto simp add: scan_ways.simps [of P w])
    next
      case False
      have "(\<forall>j. w \<le> j \<and> j < LLC_WAYS \<longrightarrow> \<not> P j) \<longleftrightarrow> (\<forall>j. w + 1 \<le> j \<and> j < LLC_WAYS \<longrightarrow> \<not> P j)"
        using False by (metis Suc_eq_plus1 Suc_leI le_neq_implies_less Suc_leD)
      with "1.IH" inb False show ?thesis by (simp add: scan_ways.simps [of P w])
    qed
  qed
qed

lemma scan_ways_first:
  assumes "w \<le> i" "i < LLC_WAYS" "P i" "\<forall>j. w \<le> j \<and> j < i \<longrightarrow> \<not> P j"
  shows "scan_ways P w = Some i"
proof (cases "scan_ways P w")
  case None
  with assms show ?thesis by (simp add: scan_ways_None_iff)
next
  case (Some k)
  from scan_ways_SomeD [OF Some] assms have "k = i"
    by (metis linorder_neqE_nat)
  with Some show ?thesis by simp
qed

lemma age_ways_apply:
  "age_ways r w i = (if w \<le> i \<and> i < LLC_WAYS \<and> r i < MAX_RRPV then r i + 1 else r i)"
proof (induction r w rule: age_ways.induct)
  case (1 r w)
  show ?case
  proof (cases "w < LLC_WAYS")
    case False
    then show ?thesis by (simp add: age_ways.simps [of r w])
  next
    case True
    with "1.IH" show ?thesis
      by (subst age_ways.simps) auto
  qed
qed

lemma u8_succ_below_max:
  fixes x :: u8
  assumes "x < MAX_RRPV"
  shows "unat (x + 1) = unat x + 1" and "x + 1 \<le> MAX_RRPV"
proof -
  from assms have lt: "unat x < 3" by (simp add: MAX_RRPV_def word_less_nat_alt)
  then show "unat (x + 1) = unat x + 1" by (simp add: unat_word_ariths)
  with lt show "x + 1 \<le> MAX_RRPV" by (simp add: MAX_RRPV_def word_le_nat_alt)
qed

lemma rrip_loop_found: "max_rrpv_way r = Some v \<Longrightarrow> rrip_loop r = Some (v, r)"
  by (subst rrip_loop.simps) simp

lemma rrip_loop_age: "max_rrpv_way r = None \<Longrightarrow> rrip_loop r = rrip_loop (age_pass r)"
  by (subst rrip_loop.simps) simp

lemma rrip_loop_returns:
  assumes "w < LLC_WAYS" and "r w \<le> MAX_RRPV" and "unat MAX_RRPV - unat (r w) = n"
  shows "\<exists>k v. k \<le> n \<and> rrip_loop r = Some (v, (age_pass ^^ k) r)
            \<and> max_rrpv_way ((age_pass ^^ k) r) = Some v
            \<and> (\<forall>j<k. max_rrpv_way ((age_pass ^^ j) r) = None)"
  using assms
proof (induction n arbitrary: r)
  case 0
  then have "r w = MAX_RRPV"
    by (simp add: word_le_nat_alt word_unat_eq_iff)
  with "0.prems"(1) have "max_rrpv_way r \<noteq> None"
    by (auto simp add: max_rrpv_way_def scan_ways_None_iff)
  then obtain v where "max_rrpv_way r = Some v" by auto
  then have "rrip_loop r = Some (v, (age_pass ^^ 0) r) \<and> max_rrpv_way ((age_pass ^^ 0) r) = Some v"
    by (simp add: rrip_loop_found)
  then show ?case by blast
next
  case (Suc n)
  show ?case
  proof (cases "max_rrpv_way r")
    case (Some v)
    then have "rrip_loop r = Some (v, (age_pass ^^ 0) r) \<and> max_rrpv_way ((age_pass ^^ 0) r) = Some v"
      by (simp add: rrip_loop_found)
    then show ?thesis by blast
  next
    case None
    from Suc.prems have lt: "r w < MAX_RRPV"
      by (simp add: word_less_nat_alt)
    with Suc.prems(1) have aw: "age_pass r w = r w + 1"
      by (simp add: age_pass_def age_ways_apply)
    have "\<exists>k v. k \<le> n \<and> rrip_loop (age_pass r) = Some (v, (age_pass ^^ k) (age_pass r))
            \<and> max_rrpv_way ((age_pass ^^ k) (age_pass r)) = Some v
            \<and> (\<forall>j<k. max_rrpv_way ((age_pass ^^ j) (age_pass r)) = None)"
    proof (rule Suc.IH)
      show "w < LLC_WAYS" by (rule Suc.prems)
      show "age_pass r w \<le> MAX_RRPV" using lt aw by (simp add: u8_succ_below_max)
      show "unat MAX_RRPV - unat (age_pass r w) = n"
        using lt aw Suc.prems(3) by (simp add: u8_succ_below_max)
    qed
    then obtain k v where k: "k \<le> n"
      and res: "rrip_loop (age_pass r) = Some (v, (age_pass ^^ k) (age_pass r))"
      and fnd: "max_rrpv_way ((age_pass ^^ k) (age_pass r)) = Some v"
      and nf: "\<forall>j<k. max_rrpv_way ((age_pass ^^ j) (age_pass r)) = None"
      by blast
    have sw: "(age_pass ^^ j) (age_pass r) = (age_pass ^^ Suc j) r" for j
      using funpow_swap1 [of age_pass j r] by simp
    have "max_rrpv_way ((age_pass ^^ j) r) = None" if "j < Suc k" for j
    proof (cases j)
      case 0
      with None show ?thesis by simp
    next
      case (Suc i)
      with that nf have "max_rrpv_way ((age_pass ^^ i) (age_pass r)) = None" by simp
      then have "max_rrpv_way ((age_pass ^^ Suc i) r) = None" by (simp only: sw)
      then show ?thesis by (simp only: Suc)
    qed
    moreover have "rrip_loop r = Some (v, (age_pass ^^ Suc k) r)"
    proof -
      have "rrip_loop r = rrip_loop (age_pass r)" using None by (rule rrip_loop_age)
      also have "\<dots> = Some (v, (age_pass ^^ k) (age_pass r))" by (rule res)
      finally show ?thesis by (simp only: sw)
    qed
    moreover have "max_rrpv_way ((age_pass ^^ Suc k) r) = Some v"
      using fnd by (simp only: sw)
    ultimately show ?thesis using k
      by (metis Suc_le_mono)
  qed
qed

lemma rrip_loop_SomeD:
  assumes "rrip_loop r = Some y"
  shows "\<exists>w<LLC_WAYS. r w \<le> MAX_RRPV"
proof (rule rrip_loop.raw_induct [where P = "\<lambda>r y. \<exists>w<LLC_WAYS. r w \<le> MAX_RRPV", OF _ assms])
  fix f :: "(nat \<Rightarrow> u8) \<Rightarrow> (nat \<times> (nat \<Rightarrow> u8)) option" and r y
  assume ih: "\<And>r y. f r = Some y \<Longrightarrow> \<exists>w<LLC_WAYS. r w \<le> MAX_RRPV"
  assume body: "(case max_rrpv_way r of
                   Some w \<Rightarrow> Some (w, r) | None \<Rightarrow> f (age_pass r)) = Some y"
  show "\<exists>w<LLC_WAYS. r w \<le> MAX_RRPV"
  proof (cases "max_rrpv_way r")
    case (Some v)
    then show ?thesis
      using scan_ways_SomeD [of "\<lambda>w. r w = MAX_RRPV" 0 v] by (auto simp add: max_rrpv_way_def)
  next
    case None
    with body have "f (age_pass r) = Some y" by simp
    then obtain w where w: "w < LLC_WAYS" "age_pass r w \<le> MAX_RRPV"
      using ih by blast
    then have "r w \<le> MAX_RRPV"
      by (auto simp add: age_pass_def age_ways_apply split: if_splits)
    with w show ?thesis by blast
  qed
qed


subsection \<open>Victim selection returns\<close>

lemma FindVictimWay_invalid:
  assumes "scan_ways (\<lambda>w. \<not> valid_entries s seti w) 0 = Some w"
  shows "FindVictimWay s seti = Some (w, s)"
  using assms by (simp add: FindVictimWay_def)

lemma FindVictimWay_full:
  assumes "scan_ways (\<lambda>w. \<not> valid_entries s seti w) 0 = None"
    and "rrip_loop (RRPV s seti) = Some (w, r)"
  shows "FindVictimWay s seti = Some (w, s\<lparr>RRPV := (RRPV s)(seti := r)\<rparr>)"
  using assms by (simp add: FindVictimWay_def)

lemma age_pass_apply:
  "age_pass r w = (if w < LLC_WAYS \<and> r w < MAX_RRPV then r w + 1 else r w)"
  by (simp add: age_pass_def age_ways_apply)

lemma max_rrpv_way_SomeD:
  "max_rrpv_way r = Some w \<Longrightarrow> w < LLC_WAYS \<and> r w = MAX_RRPV \<and> (\<forall>j<w. r j \<noteq> MAX_RRPV)"
  using scan_ways_SomeD [of "\<lambda>w. r w = MAX_RRPV" 0 w] by (simp add: max_rrpv_way_def)

lemma FindVictimWay_cases:
  assumes "victim_exists s seti"
  shows "\<exists>way k. FindVictimWay s seti
             = Some (way, s\<lparr>RRPV := (RRPV s)(seti := (age_pass ^^ k) (RRPV s seti))\<rparr>)
           \<and> way < LLC_WAYS \<and> k \<le> unat MAX_RRPV
           \<and> (\<forall>j<k. max_rrpv_way ((age_pass ^^ j) (RRPV s seti)) = None)
           \<and> (if \<exists>w<LLC_WAYS. \<not> valid_entries s seti w
               then k = 0 \<and> \<not> valid_entries s seti way \<and> (\<forall>j<way. valid_entries s seti j)
               else max_rrpv_way ((age_pass ^^ k) (RRPV s seti)) = Some way)"
proof (cases "scan_ways (\<lambda>w. \<not> valid_entries s seti w) 0")
  case (Some w)
  from scan_ways_SomeD [OF Some]
  have w: "w < LLC_WAYS" "\<not> valid_entries s seti w" "\<forall>j<w. valid_entries s seti j"
    by simp_all
  have "s\<lparr>RRPV := (RRPV s)(seti := (age_pass ^^ 0) (RRPV s seti))\<rparr> = s"
    by simp
  with FindVictimWay_invalid [OF Some]
  have "FindVictimWay s seti
          = Some (w, s\<lparr>RRPV := (RRPV s)(seti := (age_pass ^^ 0) (RRPV s seti))\<rparr>)"
    by simp
  moreover have "\<exists>w<LLC_WAYS. \<not> valid_entries s seti w" using w by blast
  ultimately show ?thesis using w
    by (intro exI [of _ w] exI [of _ 0]) simp
next
  case None
  then have full: "\<forall>w<LLC_WAYS. valid_entries s seti w"
    by (simp add: scan_ways_None_iff)
  with assms obtain w where w: "w < LLC_WAYS" "RRPV s seti w \<le> MAX_RRPV"
    by (auto simp add: victim_exists_def)
  from rrip_loop_returns [of w "RRPV s seti", OF w refl]
  obtain k v where k: "k \<le> unat MAX_RRPV - unat (RRPV s seti w)"
    and res: "rrip_loop (RRPV s seti) = Some (v, (age_pass ^^ k) (RRPV s seti))"
    and fnd: "max_rrpv_way ((age_pass ^^ k) (RRPV s seti)) = Some v"
    and nf: "\<forall>j<k. max_rrpv_way ((age_pass ^^ j) (RRPV s seti)) = None"
    by blast
  from max_rrpv_way_SomeD [OF fnd] have "v < LLC_WAYS" by simp
  moreover from k have "k \<le> unat MAX_RRPV" by simp
  moreover note FindVictimWay_full [OF None res] fnd nf full
  ultimately show ?thesis
    by (intro exI [of _ v] exI [of _ k]) simp
qed

lemma FindVictimWay_SomeD:
  assumes "FindVictimWay s seti = Some y"
  shows "victim_exists s seti"
proof (cases "scan_ways (\<lambda>w. \<not> valid_entries s seti w) 0")
  case (Some w)
  from scan_ways_SomeD [OF Some] show ?thesis
    by (auto simp add: victim_exists_def)
next
  case None
  with assms obtain z where "rrip_loop (RRPV s seti) = Some z"
    by (auto simp add: FindVictimWay_def split: option.splits)
  from rrip_loop_SomeD [OF this] show ?thesis
    by (auto simp add: victim_exists_def)
qed

subsection \<open>Block addresses and signatures\<close>

lemma u64_succ:
  fixes l :: u64
  assumes "uint l < 2 ^ 64 - 1"
  shows "uint (l + 1) = uint l + 1"
proof -
  have "uint (l + 1) = (uint l + 1) mod 2 ^ 64"
    by (simp add: uint_word_ariths)
  also from assms have "\<dots> = uint l + 1"
    by (simp add: mod_pos_pos_trivial)
  finally show ?thesis .
qed

lemma uint_max64: "uint (- 1 :: u64) = 2 ^ 64 - 1"
  by (simp add: unsigned_minus_1_eq_mask mask_eq_exp_minus_1)

lemma u64_not_max:
  fixes l :: u64
  assumes "l \<noteq> - 1"
  shows "uint l < 2 ^ 64 - 1"
proof -
  have "uint l < 2 ^ 64" using uint_bounded [of l] by simp
  moreover have "uint l \<noteq> 2 ^ 64 - 1"
  proof
    assume "uint l = 2 ^ 64 - 1"
    then have "uint l = uint (- 1 :: u64)" by (simp only: uint_max64)
    then have "l = - 1" by (simp only: word_uint_eq_iff)
    with assms show False by simp
  qed
  ultimately show ?thesis by simp
qed

lemma adjacent_blocks:
  fixes a l :: u64
  assumes "uint a < 2 ^ 58" and "l \<noteq> - 1"
  shows "(a - l = 1 \<or> a - l = - 1) \<longleftrightarrow> \<bar>uint a - uint l\<bar> = 1"
proof -
  have l1: "uint (l + 1) = uint l + 1"
    using assms(2) by (rule u64_succ [OF u64_not_max])
  have a1: "uint (a + 1) = uint a + 1"
    using assms(1) by (intro u64_succ) simp
  have "a - l = 1 \<longleftrightarrow> a = l + 1"
    by (simp add: diff_eq_eq add.commute)
  also have "\<dots> \<longleftrightarrow> uint a = uint l + 1"
    by (simp add: word_uint_eq_iff l1)
  finally have up: "a - l = 1 \<longleftrightarrow> uint a = uint l + 1" .
  have "a - l = - 1 \<longleftrightarrow> l = a + 1"
    by (auto simp add: diff_eq_eq)
  also have "\<dots> \<longleftrightarrow> uint l = uint a + 1"
    by (simp add: word_uint_eq_iff a1)
  finally have down: "a - l = - 1 \<longleftrightarrow> uint l = uint a + 1" .
  from up down show ?thesis by linarith
qed

lemma blk_addr_bound: "uint (drop_bit 6 (paddr :: u64)) < 2 ^ 58"
proof -
  have "uint (drop_bit 6 paddr) = uint paddr div 2 ^ 6"
    by (simp add: drop_bit_eq_div uint_div_distrib)
  moreover have "uint paddr < 2 ^ 64" using uint_bounded [of paddr] by simp
  ultimately show ?thesis by simp
qed

lemma blk_addr_valid: "drop_bit 6 (paddr :: u64) \<noteq> INVALID_BLK"
proof
  assume "drop_bit 6 paddr = INVALID_BLK"
  then have "uint (drop_bit 6 paddr) = 2 ^ 64 - 1" by (simp only: INVALID_BLK_def uint_max64)
  with blk_addr_bound [of paddr] show False by simp
qed

lemma GetSignature_bound: "unat (GetSignature PC) < SIG_TABLE_SIZE"
proof -
  let ?x = "(PC XOR drop_bit 12 PC XOR drop_bit 20 PC) AND (2047 :: u64)"
  have "?x \<le> 2047" by (rule word_and_le1)
  then have "unat ?x \<le> 2047" by (simp add: word_le_nat_alt)
  moreover have "unat (ucast ?x :: u32) = unat ?x"
    using \<open>unat ?x \<le> 2047\<close> by (simp add: unsigned_ucast_eq take_bit_nat_eq_self)
  ultimately show ?thesis
    by (simp add: GetSignature_def SIG_TABLE_SIZE_def)
qed

subsection \<open>What each block of \<^verbatim>\<open>GetVictimInSet\<close> leaves alone\<close>

lemma stream_detect_frame:
  "RRPV (stream_detect s sig a) = RRPV s"
  "valid_entries (stream_detect s sig a) = valid_entries s"
  "sig_mem (stream_detect s sig a) = sig_mem s"
  "has_hit (stream_detect s sig a) = has_hit s"
  "is_streaming (stream_detect s sig a) = is_streaming s"
  "SHCT (stream_detect s sig a) = SHCT s"
  "g_STCT_THRESHOLD (stream_detect s sig a) = g_STCT_THRESHOLD s"
  "stream_misses (stream_detect s sig a) = stream_misses s"
  by (simp_all add: stream_detect_def Let_def)

lemma stream_detect_last_addr:
  "last_addr (stream_detect s sig a) = (last_addr s)(unat sig := a)"
  by (simp add: stream_detect_def Let_def)

lemma stream_detect_STCT:
  "STCT (stream_detect s sig a) =
     (if last_addr s (unat sig) = INVALID_BLK then STCT s
      else if a - last_addr s (unat sig) = 1 \<or> a - last_addr s (unat sig) = - 1
      then (if STCT s (unat sig) < STCT_MAX
            then (STCT s)(unat sig := STCT s (unat sig) + 1) else STCT s)
      else (if 0 < STCT s (unat sig)
            then (STCT s)(unat sig := STCT s (unat sig) - 1) else STCT s))"
  by (simp add: stream_detect_def Let_def)

lemma evict_penalty_frame:
  "RRPV (evict_penalty s seti way) = RRPV s"
  "valid_entries (evict_penalty s seti way) = valid_entries s"
  "sig_mem (evict_penalty s seti way) = sig_mem s"
  "has_hit (evict_penalty s seti way) = has_hit s"
  "is_streaming (evict_penalty s seti way) = is_streaming s"
  "STCT (evict_penalty s seti way) = STCT s"
  "last_addr (evict_penalty s seti way) = last_addr s"
  "g_STCT_THRESHOLD (evict_penalty s seti way) = g_STCT_THRESHOLD s"
  by (simp_all add: evict_penalty_def Let_def)

lemma evict_penalty_invalid:
  "\<not> valid_entries s seti way \<Longrightarrow> evict_penalty s seti way = s"
  by (simp add: evict_penalty_def)

lemma evict_penalty_SHCT:
  "SHCT (evict_penalty s seti way) =
     (if valid_entries s seti way \<and> \<not> has_hit s seti way \<and> 0 < SHCT s (unat (sig_mem s seti way))
      then (SHCT s)(unat (sig_mem s seti way) := SHCT s (unat (sig_mem s seti way)) - 1)
      else SHCT s)"
  by (simp add: evict_penalty_def Let_def)

lemma evict_penalty_stream_misses:
  "stream_misses (evict_penalty s seti way) =
     (if valid_entries s seti way \<and> is_streaming s seti way \<and> \<not> has_hit s seti way
      then stream_misses s + 1 else stream_misses s)"
  by (simp add: evict_penalty_def Let_def)

lemma install_line_frame:
  "SHCT (install_line s seti way sig) = SHCT s"
  "STCT (install_line s seti way sig) = STCT s"
  "last_addr (install_line s seti way sig) = last_addr s"
  "g_STCT_THRESHOLD (install_line s seti way sig) = g_STCT_THRESHOLD s"
  "stream_misses (install_line s seti way sig) = stream_misses s"
  by (simp_all add: install_line_def Let_def)

lemma install_line_RRPV:
  "RRPV (install_line s seti way sig) =
     (RRPV s)(seti := (RRPV s seti)(way :=
        if SHCT_THRESHOLD \<le> SHCT s (unat sig) then 0
        else if g_STCT_THRESHOLD s \<le> STCT s (unat sig) then 1 else MAX_RRPV))"
  by (simp add: install_line_def Let_def)

lemma install_line_lines:
  "valid_entries (install_line s seti way sig) =
     (valid_entries s)(seti := (valid_entries s seti)(way := True))"
  "sig_mem (install_line s seti way sig) = (sig_mem s)(seti := (sig_mem s seti)(way := sig))"
  "has_hit (install_line s seti way sig) = (has_hit s)(seti := (has_hit s seti)(way := False))"
  "is_streaming (install_line s seti way sig) =
     (is_streaming s)(seti := (is_streaming s seti)(way := g_STCT_THRESHOLD s \<le> STCT s (unat sig)))"
  by (simp_all add: install_line_def Let_def)

lemma victim_exists_stream_detect [simp]:
  "victim_exists (stream_detect s sig a) seti = victim_exists s seti"
  by (simp add: victim_exists_def stream_detect_frame)

text \<open>The shape of every returning call: detector, search with \<open>k\<close> aging passes, penalty, install.\<close>

lemma GetVictimInSet_cases:
  assumes "victim_exists s seti"
  shows "\<exists>way k. GetVictimInSet s cpu seti current_set PC paddr type
           = Some (way, install_line (evict_penalty
               ((stream_detect s (GetSignature PC) (drop_bit 6 paddr))
                  \<lparr>RRPV := (RRPV s)(seti := (age_pass ^^ k) (RRPV s seti))\<rparr>) seti way)
               seti way (GetSignature PC))
           \<and> way < LLC_WAYS \<and> k \<le> unat MAX_RRPV
           \<and> (if \<exists>w<LLC_WAYS. \<not> valid_entries s seti w
               then k = 0 \<and> \<not> valid_entries s seti way \<and> (\<forall>j<way. valid_entries s seti j)
               else max_rrpv_way ((age_pass ^^ k) (RRPV s seti)) = Some way)"
proof -
  define s1 where "s1 = stream_detect s (GetSignature PC) (drop_bit 6 paddr)"
  have ve: "victim_exists s1 seti" using assms by (simp add: s1_def)
  have fr: "RRPV s1 = RRPV s" "valid_entries s1 = valid_entries s"
    by (simp_all add: s1_def stream_detect_frame)
  from FindVictimWay_cases [OF ve] obtain way k where
    fv: "FindVictimWay s1 seti
           = Some (way, s1\<lparr>RRPV := (RRPV s1)(seti := (age_pass ^^ k) (RRPV s1 seti))\<rparr>)"
    and rest: "way < LLC_WAYS" "k \<le> unat MAX_RRPV"
      "if \<exists>w<LLC_WAYS. \<not> valid_entries s1 seti w
       then k = 0 \<and> \<not> valid_entries s1 seti way \<and> (\<forall>j<way. valid_entries s1 seti j)
       else max_rrpv_way ((age_pass ^^ k) (RRPV s1 seti)) = Some way"
    by blast
  from fv have "GetVictimInSet s cpu seti current_set PC paddr type
      = Some (way, install_line (evict_penalty
               (s1\<lparr>RRPV := (RRPV s)(seti := (age_pass ^^ k) (RRPV s seti))\<rparr>) seti way)
               seti way (GetSignature PC))"
    by (simp add: GetVictimInSet_def Let_def s1_def [symmetric] fr)
  with rest [unfolded fr] show ?thesis
    unfolding s1_def by blast
qed

subsection \<open>The counters stay in range\<close>

lemma u8_pred_le:
  fixes x :: u8
  assumes "0 < x" and "x \<le> 3"
  shows "x - 1 \<le> 3"
proof -
  from assms(1) have "x \<noteq> 0" by auto
  then have "unat (x - 1) = unat x - 1" by (rule unat_minus_one)
  with assms(2) show ?thesis by (simp add: word_le_nat_alt)
qed

lemma u8_pred_ge_1:
  fixes x :: u8
  assumes "1 < x"
  shows "1 \<le> x - 1"
proof -
  from assms have "x \<noteq> 0" by auto
  then have "unat (x - 1) = unat x - 1" by (rule unat_minus_one)
  with assms show ?thesis by (simp add: word_le_nat_alt word_less_nat_alt)
qed

lemma u8_pred_le_self:
  fixes x :: u8
  assumes "1 < x" and "x \<le> 3"
  shows "x - 1 \<le> 3"
  using assms u8_pred_le [of x] by (auto simp add: word_less_nat_alt)

lemma u8_succ_le_3:
  fixes x :: u8
  assumes "x < 3"
  shows "x + 1 \<le> 3" and "1 \<le> x + 1"
proof -
  from assms have lt: "unat x < 3" by (simp add: word_less_nat_alt)
  then have eq: "unat (x + 1) = unat x + 1" by (simp add: unat_word_ariths)
  with lt show "x + 1 \<le> 3" by (simp add: word_le_nat_alt)
  from eq show "1 \<le> x + 1" by (simp add: word_le_nat_alt)
qed

lemma age_pass_le: "r w \<le> 3 \<Longrightarrow> age_pass r w \<le> 3"
  by (simp add: age_pass_apply MAX_RRPV_def u8_succ_le_3)

lemma age_passes_le: "r w \<le> 3 \<Longrightarrow> (age_pass ^^ k) r w \<le> 3"
  by (induction k) (simp_all add: age_pass_le)

lemma counters_in_range_Init: "counters_in_range InitReplacementState"
  by (simp add: counters_in_range_def InitReplacementState_def MAX_RRPV_def SHCT_INIT_def
      STCT_INIT_def)

lemma GetVictimInSet_SomeD:
  assumes "GetVictimInSet s cpu seti current_set PC paddr type = Some y"
  shows "victim_exists s seti"
proof -
  from assms obtain z where
    "FindVictimWay (stream_detect s (GetSignature PC) (drop_bit 6 paddr)) seti = Some z"
    by (auto simp add: GetVictimInSet_def Let_def split: option.splits)
  from FindVictimWay_SomeD [OF this] show ?thesis by simp
qed

lemma stream_detect_STCT_le:
  assumes "STCT s i \<le> 3"
  shows "STCT (stream_detect s sig a) i \<le> 3"
  using assms
  by (auto simp add: stream_detect_STCT STCT_MAX_def u8_succ_le_3 u8_pred_le)

lemma evict_penalty_SHCT_le:
  assumes "SHCT s i \<le> 3"
  shows "SHCT (evict_penalty s seti way) i \<le> 3"
  using assms by (auto simp add: evict_penalty_SHCT u8_pred_le)

lemma counters_in_range_GetVictimInSet:
  assumes inv: "counters_in_range s"
    and res: "GetVictimInSet s cpu seti current_set PC paddr type = Some (way, s')"
  shows "counters_in_range s'"
proof -
  let ?sig = "GetSignature PC" and ?a = "drop_bit 6 paddr"
  from GetVictimInSet_cases [OF GetVictimInSet_SomeD [OF res], of cpu current_set PC paddr type] res
  obtain k where s': "s' = install_line (evict_penalty
               ((stream_detect s ?sig ?a)
                  \<lparr>RRPV := (RRPV s)(seti := (age_pass ^^ k) (RRPV s seti))\<rparr>) seti way)
               seti way ?sig"
    by auto
  have "RRPV s' t w \<le> 3" if "t < LLC_SETS" "w < LLC_WAYS" for t w
  proof -
    from inv that have "RRPV s t w \<le> 3" by (simp add: counters_in_range_def)
    then show ?thesis
      by (auto simp add: s' install_line_RRPV evict_penalty_frame MAX_RRPV_def age_passes_le)
  qed
  moreover have "SHCT s' i \<le> 3" if "i < SIG_TABLE_SIZE" for i
  proof -
    from inv that have "SHCT s i \<le> 3" by (simp add: counters_in_range_def)
    then show ?thesis
      using evict_penalty_SHCT_le [of "(stream_detect s ?sig ?a)
                  \<lparr>RRPV := (RRPV s)(seti := (age_pass ^^ k) (RRPV s seti))\<rparr>" i seti way]
      by (simp add: s' install_line_frame stream_detect_frame)
  qed
  moreover have "STCT s' i \<le> 3" if "i < SIG_TABLE_SIZE" for i
  proof -
    from inv that have "STCT s i \<le> 3" by (simp add: counters_in_range_def)
    then show ?thesis
      by (simp add: s' install_line_frame evict_penalty_frame stream_detect_STCT_le)
  qed
  moreover have "g_STCT_THRESHOLD s' = g_STCT_THRESHOLD s"
    by (simp add: s' install_line_frame evict_penalty_frame stream_detect_frame)
  ultimately show ?thesis using inv by (simp add: counters_in_range_def)
qed

lemma MonitorEpoch_frame:
  "RRPV (MonitorEpoch s) = RRPV s"
  "SHCT (MonitorEpoch s) = SHCT s"
  "valid_entries (MonitorEpoch s) = valid_entries s"
  "sig_mem (MonitorEpoch s) = sig_mem s"
  "has_hit (MonitorEpoch s) = has_hit s"
  "is_streaming (MonitorEpoch s) = is_streaming s"
  by (simp_all add: MonitorEpoch_def Let_def)

lemma MonitorEpoch_STCT:
  "STCT (MonitorEpoch s) =
     (if PHASE_CHANGE_DELTA \<le> fabs (dsub (cur_miss_rate s) (prev_miss_rate s))
      then (\<lambda>i. if i < SIG_TABLE_SIZE then STCT_INIT else STCT s i) else STCT s)"
  by (simp add: MonitorEpoch_def Let_def)


lemma MonitorEpoch_threshold:
  "g_STCT_THRESHOLD (MonitorEpoch s) =
     (if stream_ratio s < STREAM_LOW_RATIO \<and> g_STCT_THRESHOLD s < STCT_MAX
      then g_STCT_THRESHOLD s + 1
      else if STREAM_HIGH_RATIO < stream_ratio s \<and> 1 < g_STCT_THRESHOLD s
      then g_STCT_THRESHOLD s - 1 else g_STCT_THRESHOLD s)"
  by (simp add: MonitorEpoch_def Let_def stream_ratio_def)

lemma counters_in_range_MonitorEpoch:
  assumes "counters_in_range s"
  shows "counters_in_range (MonitorEpoch s)"
  using assms
  by (auto simp add: counters_in_range_def MonitorEpoch_frame MonitorEpoch_STCT
      MonitorEpoch_threshold STCT_INIT_def STCT_MAX_def u8_succ_le_3 u8_pred_ge_1 u8_pred_le_self)

lemma counters_in_range_UpdateReplacementState:
  assumes "counters_in_range s"
  shows "counters_in_range (UpdateReplacementState s cpu seti way paddr PC victim_addr type hit)"
proof -
  let ?miss = "s\<lparr>epoch_accesses := epoch_accesses s + 1,
                  stat_misses := stat_misses s + 1, epoch_misses := epoch_misses s + 1\<rparr>"
  have miss: "counters_in_range ?miss"
    using assms by (simp add: counters_in_range_def)
  let ?i = "unat (sig_mem s seti way)"
  let ?hit0 = "s\<lparr>epoch_accesses := epoch_accesses s + 1,
                  stat_hits := stat_hits s + 1, epoch_hits := epoch_hits s + 1,
                  has_hit := (has_hit s)(seti := (has_hit s seti)(way := True)),
                  RRPV := (RRPV s)(seti := (RRPV s seti)(way := 0))\<rparr>"
  let ?hit1 = "if SHCT s ?i < SHCT_MAX then ?hit0\<lparr>SHCT := (SHCT s)(?i := SHCT s ?i + 1)\<rparr> else ?hit0"
  let ?hit2 = "if is_streaming s seti way then ?hit1\<lparr>stream_hits := stream_hits ?hit1 + 1\<rparr> else ?hit1"
  have hit: "counters_in_range ?hit2"
    using assms by (auto simp add: counters_in_range_def SHCT_MAX_def u8_succ_le_3)
  have "UpdateReplacementState s cpu seti way paddr PC victim_addr type hit
        = (let s2 = (if hit \<noteq> 0 then ?hit2 else ?miss)
           in if EPOCH_LENGTH \<le> epoch_accesses s2 then MonitorEpoch s2 else s2)"
    by (simp add: UpdateReplacementState_def Let_def)
  with hit miss show ?thesis
    by (simp add: Let_def counters_in_range_MonitorEpoch)
qed

lemma reachable_inv: "reachable s \<Longrightarrow> counters_in_range s"
proof (induction rule: reachable.induct)
  case reach_init
  show ?case by (rule counters_in_range_Init)
next
  case (reach_victim s seti cpu current_set PC paddr type way s')
  then show ?case by (blast intro: counters_in_range_GetVictimInSet)
next
  case (reach_update s seti way cpu paddr PC victim_addr type hit)
  then show ?case by (blast intro: counters_in_range_UpdateReplacementState)
qed

subsection \<open>Filling an empty set\<close>

lemma filled_Init: "filled InitReplacementState seti 0"
  by (simp add: filled_def InitReplacementState_def)

lemma UpdateReplacementState_miss:
  "UpdateReplacementState s cpu seti way paddr PC victim_addr type 0 =
     (let s2 = s\<lparr>epoch_accesses := epoch_accesses s + 1,
                 stat_misses := stat_misses s + 1, epoch_misses := epoch_misses s + 1\<rparr>
      in if EPOCH_LENGTH \<le> epoch_accesses s + 1 then MonitorEpoch s2 else s2)"
  by (simp add: UpdateReplacementState_def Let_def)

lemma epoch_not_over:
  assumes "k < LLC_WAYS"
  shows "\<not> EPOCH_LENGTH \<le> (of_nat k + 1 :: u64)"
proof -
  have "unat (of_nat k + 1 :: u64) = (k mod 2 ^ 64 + 1) mod 2 ^ 64"
    by (simp only: unat_word_ariths unat_of_nat) simp
  also from assms have "\<dots> = Suc k" by (simp add: LLC_WAYS_def)
  finally have "unat (of_nat k + 1 :: u64) < 100000"
    using assms by (simp add: LLC_WAYS_def)
  moreover have "unat EPOCH_LENGTH = 100000" by (simp add: EPOCH_LENGTH_def)
  ultimately show ?thesis by (simp only: word_le_nat_alt)
qed

lemma miss_access_fill:
  assumes f: "filled s seti k" and k: "k < LLC_WAYS"
    and fresh: "last_addr s (unat (GetSignature PC)) = INVALID_BLK"
  shows "\<exists>s'. miss_access s seti PC paddr = Some ((k, 0), s') \<and> filled s' seti (Suc k)
           \<and> last_addr s' = (last_addr s)(unat (GetSignature PC) := drop_bit 6 paddr)"
proof -
  let ?sig = "GetSignature PC" and ?a = "drop_bit 6 paddr"
  define s1 where "s1 = stream_detect s ?sig ?a"
  have s1_STCT: "STCT s1 = STCT s"
    using fresh by (simp add: s1_def stream_detect_STCT)
  have s1_fr: "valid_entries s1 = valid_entries s" "RRPV s1 = RRPV s" "SHCT s1 = SHCT s"
    "g_STCT_THRESHOLD s1 = g_STCT_THRESHOLD s"
    by (simp_all add: s1_def stream_detect_frame)
  have s1_acc: "epoch_accesses s1 = epoch_accesses s"
    by (simp add: s1_def stream_detect_def Let_def)
  have s1_la: "last_addr s1 = (last_addr s)(unat ?sig := ?a)"
    by (simp add: s1_def stream_detect_last_addr)
  from f k have inv: "\<not> valid_entries s seti k" "\<forall>j<k. valid_entries s seti j"
    by (simp_all add: filled_def)
  then have "scan_ways (\<lambda>w. \<not> valid_entries s1 seti w) 0 = Some k"
    using k by (intro scan_ways_first) (simp_all add: s1_fr)
  then have fv: "FindVictimWay s1 seti = Some (k, s1)"
    by (rule FindVictimWay_invalid)
  define s2 where "s2 = install_line s1 seti k ?sig"
  from inv have "evict_penalty s1 seti k = s1"
    by (simp add: evict_penalty_invalid s1_fr)
  with fv have gv: "GetVictimInSet s 0 seti [] PC paddr 0 = Some (k, s2)"
    by (simp add: GetVictimInSet_def Let_def s1_def [symmetric] s2_def)
  from f have tabs: "SHCT s (unat ?sig) = SHCT_INIT" "STCT s (unat ?sig) = STCT_INIT"
    "g_STCT_THRESHOLD s = STCT_INIT + 1" "epoch_accesses s = of_nat k"
    by (simp_all add: filled_def)
  have s2_RRPV: "RRPV s2 = (RRPV s)(seti := (RRPV s seti)(k := 0))"
    by (simp add: s2_def install_line_RRPV s1_fr s1_STCT tabs SHCT_THRESHOLD_def SHCT_INIT_def)
  have s2_valid: "valid_entries s2 = (valid_entries s)(seti := (valid_entries s seti)(k := True))"
    by (simp add: s2_def install_line_lines s1_fr)
  have s2_tabs: "SHCT s2 = SHCT s" "STCT s2 = STCT s" "g_STCT_THRESHOLD s2 = g_STCT_THRESHOLD s"
    "last_addr s2 = (last_addr s)(unat ?sig := ?a)"
    by (simp_all add: s2_def install_line_frame s1_fr s1_STCT s1_la)
  have s2_acc: "epoch_accesses s2 = of_nat k"
    by (simp add: s2_def install_line_def Let_def s1_acc tabs)
  define s3 where "s3 = UpdateReplacementState s2 0 seti k paddr PC 0 0 0"
  have s3: "s3 = s2\<lparr>epoch_accesses := of_nat k + 1,
                  stat_misses := stat_misses s2 + 1, epoch_misses := epoch_misses s2 + 1\<rparr>"
    using epoch_not_over [OF k]
    by (simp add: s3_def UpdateReplacementState_miss Let_def s2_acc)
  from gv have "miss_access s seti PC paddr = Some ((k, 0), s3)"
    by (simp add: miss_access_def s3_def s2_RRPV)
  moreover from f have "filled s3 seti (Suc k)"
    by (auto simp add: filled_def s3 s2_RRPV s2_valid s2_tabs less_Suc_eq)
  moreover have "last_addr s3 = (last_addr s)(unat ?sig := ?a)"
    by (simp add: s3 s2_tabs)
  ultimately show ?thesis by blast
qed

lemma signature_index_inj:
  "unat (x :: u32) = unat y \<longleftrightarrow> x = y"
  by (simp add: word_unat_eq_iff)

lemma signatures_Cons:
  "signatures ((PC, paddr) # rest) = GetSignature PC # signatures rest"
  by (simp add: signatures_def)

lemma run_misses_fill:
  assumes "filled s seti k" and "k + length accs \<le> LLC_WAYS"
    and "distinct (signatures accs)"
    and "\<forall>sig\<in>set (signatures accs). last_addr s (unat sig) = INVALID_BLK"
  shows "\<exists>s'. run_misses s seti accs = Some (map (\<lambda>w. (w, 0)) [k..<k + length accs], s')
           \<and> filled s' seti (k + length accs)"
  using assms
proof (induction accs arbitrary: s k)
  case Nil
  then show ?case by simp
next
  case (Cons acc rest)
  obtain PC paddr where acc: "acc = (PC, paddr)" by (cases acc)
  from Cons.prems(2) have k: "k < LLC_WAYS" by simp
  from Cons.prems(4) have fresh: "last_addr s (unat (GetSignature PC)) = INVALID_BLK"
    by (simp add: acc signatures_Cons)
  from miss_access_fill [OF Cons.prems(1) k fresh, of paddr] obtain s1 where
    step: "miss_access s seti PC paddr = Some ((k, 0), s1)"
    and f1: "filled s1 seti (Suc k)"
    and la: "last_addr s1 = (last_addr s)(unat (GetSignature PC) := drop_bit 6 paddr)"
    by blast
  from Cons.prems(3) have d: "distinct (signatures rest)" "GetSignature PC \<notin> set (signatures rest)"
    by (simp_all add: acc signatures_Cons)
  have fresh1: "\<forall>sig\<in>set (signatures rest). last_addr s1 (unat sig) = INVALID_BLK"
  proof
    fix sig assume m: "sig \<in> set (signatures rest)"
    with d have "sig \<noteq> GetSignature PC" by auto
    then have "unat sig \<noteq> unat (GetSignature PC)" by (simp add: signature_index_inj)
    moreover from m Cons.prems(4) have "last_addr s (unat sig) = INVALID_BLK"
      by (simp add: acc signatures_Cons)
    ultimately show "last_addr s1 (unat sig) = INVALID_BLK" by (simp add: la)
  qed
  from Cons.prems(2) have len: "Suc k + length rest \<le> LLC_WAYS" by simp
  from Cons.IH [OF f1 len d(1) fresh1] obtain s' where
    rest: "run_misses s1 seti rest = Some (map (\<lambda>w. (w, 0)) [Suc k..<Suc k + length rest], s')"
    and f': "filled s' seti (Suc k + length rest)"
    by blast
  have n: "k + length (acc # rest) = Suc k + length rest" by simp
  have "[k..<Suc k + length rest] = k # [Suc k..<Suc k + length rest]"
    by (rule upt_conv_Cons) simp
  then have "map (\<lambda>w. (w, 0 :: u8)) [k..<k + length (acc # rest)]
               = (k, 0) # map (\<lambda>w. (w, 0)) [Suc k..<Suc k + length rest]"
    by (simp only: n list.map)
  moreover from step rest
  have "run_misses s seti (acc # rest)
          = Some ((k, 0) # map (\<lambda>w. (w, 0)) [Suc k..<Suc k + length rest], s')"
    by (simp add: acc)
  ultimately show ?case using f' by (simp only: n) simp
qed

subsection \<open>Evicting from a set whose lines all sit at 0\<close>

lemma age_passes_from_zero:
  assumes "\<forall>w<LLC_WAYS. r w = 0" and "j \<le> 3" and "w < LLC_WAYS"
  shows "(age_pass ^^ j) r w = of_nat j"
  using assms(2)
proof (induction j)
  case 0
  with assms show ?case by simp
next
  case (Suc j)
  then have ih: "(age_pass ^^ j) r w = of_nat j" by simp
  from Suc.prems have "unat (of_nat j :: u8) = j"
    by (simp add: unat_of_nat)
  with Suc.prems have lt: "(of_nat j :: u8) < MAX_RRPV"
    by (simp add: MAX_RRPV_def word_less_nat_alt)
  have "(age_pass ^^ Suc j) r w = age_pass ((age_pass ^^ j) r) w" by simp
  also have "\<dots> = (age_pass ^^ j) r w + 1"
    using assms(3) lt ih by (subst age_pass_apply) simp
  finally show ?case using ih by simp
qed

lemma FindVictimWay_all_zero:
  assumes "\<forall>w<LLC_WAYS. valid_entries s seti w \<and> RRPV s seti w = 0"
  shows "FindVictimWay s seti
           = Some (0, s\<lparr>RRPV := (RRPV s)(seti := (age_pass ^^ 3) (RRPV s seti))\<rparr>)
         \<and> (age_pass ^^ 3) (RRPV s seti) 0 = MAX_RRPV"
proof -
  let ?r = "RRPV s seti"
  have z: "\<forall>w<LLC_WAYS. ?r w = 0" using assms by simp
  have w0: "0 < LLC_WAYS" by (simp add: LLC_WAYS_def)
  from assms w0 have ve: "victim_exists s seti"
    by (auto simp add: victim_exists_def)
  from assms have full: "\<not> (\<exists>w<LLC_WAYS. \<not> valid_entries s seti w)" by simp
  from FindVictimWay_cases [OF ve] full obtain way k where
    res: "FindVictimWay s seti = Some (way, s\<lparr>RRPV := (RRPV s)(seti := (age_pass ^^ k) ?r)\<rparr>)"
    and k: "k \<le> unat MAX_RRPV"
    and fnd: "max_rrpv_way ((age_pass ^^ k) ?r) = Some way"
    by auto
  from max_rrpv_way_SomeD [OF fnd]
  have way: "way < LLC_WAYS" "(age_pass ^^ k) ?r way = MAX_RRPV"
    "\<forall>j<way. (age_pass ^^ k) ?r j \<noteq> MAX_RRPV"
    by simp_all
  from k have k3: "k \<le> 3" by (simp add: MAX_RRPV_def)
  from age_passes_from_zero [OF z k3 way(1)] way(2) have "(of_nat k :: u8) = 3"
    by (simp add: MAX_RRPV_def)
  then have "unat (of_nat k :: u8) = 3" by simp
  with k3 have k_eq: "k = 3" by (simp add: unat_of_nat)
  from age_passes_from_zero [OF z k3 w0] k_eq have top: "(age_pass ^^ 3) ?r 0 = MAX_RRPV"
    by (simp add: MAX_RRPV_def)
  with way(3) k_eq have "way = 0" by (cases way) auto
  with res k_eq top show ?thesis by simp
qed

section \<open>The claims\<close>

lemma victim_exists_full_state: "victim_exists full_state 0"
  by (auto simp add: victim_exists_def full_state_def LLC_WAYS_def MAX_RRPV_def intro!: exI [of _ 0])

lemma victim_exists_Init: "victim_exists InitReplacementState seti"
  by (auto simp add: victim_exists_def InitReplacementState_def LLC_WAYS_def intro!: exI [of _ 0])

lemma victim_exists_seen_state: "victim_exists seen_state 0"
  by (auto simp add: victim_exists_def seen_state_def InitReplacementState_def LLC_WAYS_def
      intro!: exI [of _ 0])

lemma reachable_victim_exists:
  assumes "reachable s" and "seti < LLC_SETS"
  shows "victim_exists s seti"
proof -
  from reachable_inv [OF assms(1)] assms(2)
  have "RRPV s seti 0 \<le> MAX_RRPV"
    by (simp add: counters_in_range_def LLC_WAYS_def MAX_RRPV_def)
  then show ?thesis
    by (auto simp add: victim_exists_def LLC_WAYS_def intro!: exI [of _ 0])
qed

text \<open>
  In every reachable state the victim search of an existing set returns, and so does
  \<open>GetVictimInSet\<close>, with a way inside the set.
\<close>

lemma reachable_GetVictimInSet_returns:
  assumes "reachable s" and "seti < LLC_SETS"
  shows "\<exists>way s'. GetVictimInSet s cpu seti current_set PC paddr type = Some (way, s')
           \<and> way < LLC_WAYS"
  using GetVictimInSet_cases [OF reachable_victim_exists [OF assms], of cpu current_set PC paddr type]
  by blast

text \<open>
  The phase test compares rounded values. With 45000 misses in 100000 accesses after
  an epoch with 40000 in 100000 the two quotients differ by less than the
  \<^verbatim>\<open>double\<close> nearest to 0.05, so there is no reset at that boundary.
\<close>

lemma phase_test_on_rounded_values:
  "\<not> PHASE_CHANGE_DELTA \<le> fabs (dsub (ddiv (u64_to_double 45000) (u64_to_double 100000))
                                       (ddiv (u64_to_double 40000) (u64_to_double 100000)))"
  by code_simp

lemma first16_signatures:
  "signatures first16 = [0, 1, 2, 3, 4, 5, 6, 7, 8, 9, 10, 11, 12, 13, 14, 15]"
  by (simp add: signatures_def first16_def GetSignature_def SIG_TABLE_SIZE_def)

lemma first16_block_addrs:
  "block_addrs first16 = [0, 1, 2, 3, 4, 5, 6, 7, 8, 9, 10, 11, 12, 13, 14, 15]"
  by (simp add: block_addrs_def first16_def drop_bit_eq_div)

lemma first16_hyps: "length first16 = LLC_WAYS" "distinct (signatures first16)"
  by (simp_all add: first16_signatures) (simp add: first16_def LLC_WAYS_def)

lemma ways_at_zero:
  "map (\<lambda>w. (w, 0 :: u8)) [0..<LLC_WAYS] =
     [(0, 0), (1, 0), (2, 0), (3, 0), (4, 0), (5, 0), (6, 0), (7, 0), (8, 0), (9, 0),
      (10, 0), (11, 0), (12, 0), (13, 0), (14, 0), (15, 0)]"
  by code_simp

lemma fill_from_Init:
  assumes "length accs = LLC_WAYS" and "distinct (signatures accs)"
  shows "\<exists>s. run_misses InitReplacementState seti accs
               = Some (map (\<lambda>w. (w, 0)) [0..<LLC_WAYS], s)
             \<and> filled s seti LLC_WAYS"
proof -
  have "\<forall>sig\<in>set (signatures accs). last_addr InitReplacementState (unat sig) = INVALID_BLK"
    by (simp add: InitReplacementState_def)
  from run_misses_fill [OF filled_Init _ assms(2) this, of seti] assms(1)
  show ?thesis by simp
qed

text \<open>
  C1, as the spec states it, fails: the sixteen misses of \<open>first16\<close> (signatures
  0..15, block addresses 0..15) on the freshly initialised set 0 fill ways 0..15 in
  order, and every line is installed with \<open>rrpv = 0\<close>, not 3.
\<close>

theorem cold_fill_counterexample:
  "signatures first16 = [0, 1, 2, 3, 4, 5, 6, 7, 8, 9, 10, 11, 12, 13, 14, 15]
   \<and> block_addrs first16 = [0, 1, 2, 3, 4, 5, 6, 7, 8, 9, 10, 11, 12, 13, 14, 15]
   \<and> map_option fst (run_misses InitReplacementState 0 first16) =
       Some [(0, 0), (1, 0), (2, 0), (3, 0), (4, 0), (5, 0), (6, 0), (7, 0), (8, 0), (9, 0),
             (10, 0), (11, 0), (12, 0), (13, 0), (14, 0), (15, 0)]
   \<and> map_option fst (run_misses InitReplacementState 0 first16) \<noteq>
       Some [(0, 3), (1, 3), (2, 3), (3, 3), (4, 3), (5, 3), (6, 3), (7, 3), (8, 3), (9, 3),
             (10, 3), (11, 3), (12, 3), (13, 3), (14, 3), (15, 3)]"
proof -
  from fill_from_Init [OF first16_hyps, of 0] obtain s where
    "run_misses InitReplacementState 0 first16 = Some (map (\<lambda>w. (w, 0)) [0..<LLC_WAYS], s)"
    by blast
  then have "map_option fst (run_misses InitReplacementState 0 first16) =
       Some [(0, 0), (1, 0), (2, 0), (3, 0), (4, 0), (5, 0), (6, 0), (7, 0), (8, 0), (9, 0),
             (10, 0), (11, 0), (12, 0), (13, 0), (14, 0), (15, 0)]"
    by (simp only: ways_at_zero option.map fst_conv)
  moreover from this
  have "map_option fst (run_misses InitReplacementState 0 first16) \<noteq>
       Some [(0, 3), (1, 3), (2, 3), (3, 3), (4, 3), (5, 3), (6, 3), (7, 3), (8, 3), (9, 3),
             (10, 3), (11, 3), (12, 3), (13, 3), (14, 3), (15, 3)]"
    by (simp only: option.inject list.inject prod.inject) simp
  ultimately show ?thesis
    using first16_signatures first16_block_addrs by (intro conjI)
qed

text \<open>
  C1, amended. Starting from \<open>InitReplacementState\<close>, sixteen misses to one set with
  pairwise distinct signatures (at any addresses, sequential ones included) fill ways
  0..15 in order and install every line with \<open>rrpv = 0\<close>, the hot tier, because a
  fresh \<open>SHCT\<close> entry already meets \<open>SHCT_THRESHOLD\<close>. No way is then at
  \<open>MAX_RRPV\<close>, so the victim search of the 17th miss ages the set three times and
  picks way 0, whose \<open>rrpv\<close> is \<open>MAX_RRPV\<close> at that moment.
\<close>

theorem hot_fill_then_evict:
  assumes "length accs = LLC_WAYS" and "distinct (signatures accs)"
  shows "\<exists>s. run_misses InitReplacementState seti accs
               = Some (map (\<lambda>w. (w, 0)) [0..<LLC_WAYS], s)
           \<and> max_rrpv_way (RRPV s seti) = None
           \<and> (\<forall>PC paddr. \<exists>s1 s2.
                 FindVictimWay (stream_detect s (GetSignature PC) (drop_bit 6 paddr)) seti
                   = Some (0, s1)
                 \<and> RRPV s1 seti = (age_pass ^^ 3) (RRPV s seti)
                 \<and> RRPV s1 seti 0 = MAX_RRPV
                 \<and> GetVictimInSet s 0 seti [] PC paddr 0 = Some (0, s2))"
proof -
  from fill_from_Init [OF assms, of seti] obtain s where
    run: "run_misses InitReplacementState seti accs = Some (map (\<lambda>w. (w, 0)) [0..<LLC_WAYS], s)"
    and f: "filled s seti LLC_WAYS"
    by blast
  from f have full: "\<forall>w<LLC_WAYS. valid_entries s seti w \<and> RRPV s seti w = 0"
    by (simp add: filled_def)
  then have none: "max_rrpv_way (RRPV s seti) = None"
    by (simp add: max_rrpv_way_def scan_ways_None_iff MAX_RRPV_def)
  have "\<exists>s1 s2. FindVictimWay (stream_detect s (GetSignature PC) (drop_bit 6 paddr)) seti
                   = Some (0, s1)
                 \<and> RRPV s1 seti = (age_pass ^^ 3) (RRPV s seti)
                 \<and> RRPV s1 seti 0 = MAX_RRPV
                 \<and> GetVictimInSet s 0 seti [] PC paddr 0 = Some (0, s2)" for PC paddr
  proof -
    let ?d = "stream_detect s (GetSignature PC) (drop_bit 6 paddr)"
    from full have "\<forall>w<LLC_WAYS. valid_entries ?d seti w \<and> RRPV ?d seti w = 0"
      by (simp add: stream_detect_frame)
    from FindVictimWay_all_zero [OF this]
    have fv: "FindVictimWay ?d seti
                = Some (0, ?d\<lparr>RRPV := (RRPV s)(seti := (age_pass ^^ 3) (RRPV s seti))\<rparr>)"
      and top: "(age_pass ^^ 3) (RRPV s seti) 0 = MAX_RRPV"
      by (simp_all add: stream_detect_frame)
    from fv have "\<exists>s2. GetVictimInSet s 0 seti [] PC paddr 0 = Some (0, s2)"
      by (simp add: GetVictimInSet_def Let_def)
    with fv top show ?thesis by simp
  qed
  with run none show ?thesis by blast
qed

theorem hot_fill_then_evict_witness:
  "length first16 = LLC_WAYS \<and> distinct (signatures first16)
   \<and> (\<exists>s. run_misses InitReplacementState 0 first16
               = Some (map (\<lambda>w. (w, 0)) [0..<LLC_WAYS], s)
           \<and> max_rrpv_way (RRPV s 0) = None
           \<and> (\<forall>PC paddr. \<exists>s1 s2.
                 FindVictimWay (stream_detect s (GetSignature PC) (drop_bit 6 paddr)) 0
                   = Some (0, s1)
                 \<and> RRPV s1 0 = (age_pass ^^ 3) (RRPV s 0)
                 \<and> RRPV s1 0 0 = MAX_RRPV
                 \<and> GetVictimInSet s 0 0 [] PC paddr 0 = Some (0, s2)))"
  using hot_fill_then_evict [OF first16_hyps, of 0] first16_hyps by blast

text \<open>
  C2. In every state reachable from \<open>InitReplacementState\<close> by calls of
  \<open>GetVictimInSet\<close> and \<open>UpdateReplacementState\<close>, every \<open>RRPV\<close> cell, every \<open>SHCT\<close>
  entry and every \<open>STCT\<close> entry is at most 3, and \<open>g_STCT_THRESHOLD\<close> is between 1
  and 3.
\<close>

theorem reachable_counters_in_range:
  assumes "reachable s"
  shows "(\<forall>seti<LLC_SETS. \<forall>w<LLC_WAYS. RRPV s seti w \<le> 3)
         \<and> (\<forall>i<SIG_TABLE_SIZE. SHCT s i \<le> 3)
         \<and> (\<forall>i<SIG_TABLE_SIZE. STCT s i \<le> 3)
         \<and> 1 \<le> g_STCT_THRESHOLD s \<and> g_STCT_THRESHOLD s \<le> 3"
  using reachable_inv [OF assms] by (simp add: counters_in_range_def)

theorem reachable_counters_in_range_witness:
  "reachable hit_state
   \<and> RRPV hit_state 0 0 \<le> 3 \<and> SHCT hit_state 0 \<le> 3 \<and> STCT hit_state 0 \<le> 3
   \<and> 1 \<le> g_STCT_THRESHOLD hit_state \<and> g_STCT_THRESHOLD hit_state \<le> 3"
proof -
  have r: "reachable hit_state"
    unfolding hit_state_def
    by (rule reach_update [OF reach_init]) (simp_all add: LLC_SETS_def NUM_CORE_def LLC_WAYS_def)
  from reachable_counters_in_range [OF r] r show ?thesis
    by (simp add: LLC_SETS_def NUM_CORE_def LLC_WAYS_def SIG_TABLE_SIZE_def)
qed


lemma PHASE_CHANGE_DELTA_value:
  "PHASE_CHANGE_DELTA = 3602879701896397 / 72057594037927936"
  by code_simp













text \<open>
  C5. A returning call of \<open>GetVictimInSet\<close> for signature \<open>i\<close> and block address
  \<open>a\<close> leaves \<open>STCT[i]\<close> alone when \<open>last_addr[i]\<close> is the sentinel; otherwise it
  adds one (unless the counter is already at \<open>STCT_MAX\<close>) when \<open>a\<close> and the stored
  address differ by exactly one in either direction, and subtracts one (unless the
  counter is 0) when they do not. In every case \<open>last_addr[i]\<close> is \<open>a\<close> afterwards.
\<close>

theorem GetVictimInSet_stream_detector:
  assumes "victim_exists s seti"
  shows "\<exists>way s'. GetVictimInSet s cpu seti current_set PC paddr type = Some (way, s')
           \<and> STCT s' (unat (GetSignature PC)) =
               (let i = unat (GetSignature PC); a = drop_bit 6 paddr
                in if last_addr s i = INVALID_BLK then STCT s i
                   else if \<bar>uint a - uint (last_addr s i)\<bar> = 1
                   then (if STCT s i < STCT_MAX then STCT s i + 1 else STCT s i)
                   else (if 0 < STCT s i then STCT s i - 1 else STCT s i))
           \<and> last_addr s' (unat (GetSignature PC)) = drop_bit 6 paddr"
proof -
  let ?i = "unat (GetSignature PC)" and ?a = "drop_bit 6 paddr"
  from GetVictimInSet_cases [OF assms, of cpu current_set PC paddr type]
  obtain way k where
    res: "GetVictimInSet s cpu seti current_set PC paddr type
           = Some (way, install_line (evict_penalty
               ((stream_detect s (GetSignature PC) ?a)
                  \<lparr>RRPV := (RRPV s)(seti := (age_pass ^^ k) (RRPV s seti))\<rparr>) seti way)
               seti way (GetSignature PC))"
    by blast
  let ?s' = "install_line (evict_penalty
               ((stream_detect s (GetSignature PC) ?a)
                  \<lparr>RRPV := (RRPV s)(seti := (age_pass ^^ k) (RRPV s seti))\<rparr>) seti way)
               seti way (GetSignature PC)"
  have adj: "(?a - last_addr s ?i = 1 \<or> ?a - last_addr s ?i = - 1)
               \<longleftrightarrow> \<bar>uint ?a - uint (last_addr s ?i)\<bar> = 1"
    if "last_addr s ?i \<noteq> INVALID_BLK"
    using that by (intro adjacent_blocks blk_addr_bound) (simp add: INVALID_BLK_def)
  have "STCT ?s' = STCT (stream_detect s (GetSignature PC) ?a)"
    by (simp add: install_line_frame evict_penalty_frame)
  then have "STCT ?s' ?i =
      (if last_addr s ?i = INVALID_BLK then STCT s ?i
       else if \<bar>uint ?a - uint (last_addr s ?i)\<bar> = 1
       then (if STCT s ?i < STCT_MAX then STCT s ?i + 1 else STCT s ?i)
       else (if 0 < STCT s ?i then STCT s ?i - 1 else STCT s ?i))"
    using adj by (simp add: stream_detect_STCT)
  moreover have "last_addr ?s' ?i = ?a"
    by (simp add: install_line_frame evict_penalty_frame stream_detect_last_addr)
  ultimately show ?thesis using res by (simp add: Let_def)
qed

theorem GetVictimInSet_stream_detector_witness:
  "victim_exists seen_state 0
   \<and> (\<exists>way s'. GetVictimInSet seen_state 0 0 [] 0 512 0 = Some (way, s')
           \<and> STCT s' (unat (GetSignature 0)) =
               (let i = unat (GetSignature 0); a = drop_bit 6 (512 :: u64)
                in if last_addr seen_state i = INVALID_BLK then STCT seen_state i
                   else if \<bar>uint a - uint (last_addr seen_state i)\<bar> = 1
                   then (if STCT seen_state i < STCT_MAX then STCT seen_state i + 1 else STCT seen_state i)
                   else (if 0 < STCT seen_state i then STCT seen_state i - 1 else STCT seen_state i))
           \<and> last_addr s' (unat (GetSignature 0)) = drop_bit 6 512)"
  using GetVictimInSet_stream_detector [OF victim_exists_seen_state, of 0 "[]" 0 512 0]
    victim_exists_seen_state
  by simp

text \<open>
  C6. The line that a returning call of \<open>GetVictimInSet\<close> installs gets \<open>rrpv = 0\<close>
  when the incoming signature's \<open>SHCT\<close> entry, as it stands once the call has charged
  the evicted line, is at least \<open>SHCT_THRESHOLD\<close>; otherwise \<open>rrpv = 1\<close> when the
  signature's \<open>STCT\<close> entry, as the call's stream detector left it, is at least
  \<open>g_STCT_THRESHOLD\<close>; otherwise \<open>rrpv = MAX_RRPV\<close>.
\<close>

theorem GetVictimInSet_insertion_tier:
  assumes "victim_exists s seti"
  shows "\<exists>way s'. GetVictimInSet s cpu seti current_set PC paddr type = Some (way, s')
           \<and> RRPV s' seti way =
               (if SHCT_THRESHOLD \<le> SHCT s' (unat (GetSignature PC)) then 0
                else if g_STCT_THRESHOLD s' \<le> STCT s' (unat (GetSignature PC)) then 1
                else MAX_RRPV)
           \<and> is_streaming s' seti way
               = (g_STCT_THRESHOLD s' \<le> STCT s' (unat (GetSignature PC)))
           \<and> STCT s' = STCT (stream_detect s (GetSignature PC) (drop_bit 6 paddr))
           \<and> SHCT s' = SHCT (evict_penalty s seti way)
           \<and> g_STCT_THRESHOLD s' = g_STCT_THRESHOLD s"
proof -
  from GetVictimInSet_cases [OF assms, of cpu current_set PC paddr type]
  obtain way k where
    res: "GetVictimInSet s cpu seti current_set PC paddr type
           = Some (way, install_line (evict_penalty
               ((stream_detect s (GetSignature PC) (drop_bit 6 paddr))
                  \<lparr>RRPV := (RRPV s)(seti := (age_pass ^^ k) (RRPV s seti))\<rparr>) seti way)
               seti way (GetSignature PC))"
    by blast
  show ?thesis
    unfolding res
    by (simp add: install_line_RRPV install_line_lines install_line_frame
        evict_penalty_frame evict_penalty_SHCT stream_detect_frame)
qed

theorem GetVictimInSet_insertion_tier_witness:
  "victim_exists full_state 0
   \<and> (\<exists>way s'. GetVictimInSet full_state 0 0 [] 0 0 0 = Some (way, s')
           \<and> RRPV s' 0 way =
               (if SHCT_THRESHOLD \<le> SHCT s' (unat (GetSignature 0)) then 0
                else if g_STCT_THRESHOLD s' \<le> STCT s' (unat (GetSignature 0)) then 1
                else MAX_RRPV)
           \<and> is_streaming s' 0 way
               = (g_STCT_THRESHOLD s' \<le> STCT s' (unat (GetSignature 0)))
           \<and> STCT s' = STCT (stream_detect full_state (GetSignature 0) (drop_bit 6 0))
           \<and> SHCT s' = SHCT (evict_penalty full_state 0 way)
           \<and> g_STCT_THRESHOLD s' = g_STCT_THRESHOLD full_state)"
  using GetVictimInSet_insertion_tier [OF victim_exists_full_state, of 0 "[]" 0 0 0]
    victim_exists_full_state
  by simp

text \<open>
  C7. In every set that has an invalid way or a way whose \<open>rrpv\<close> is within its 2-bit
  range, \<open>FindVictimWay\<close> returns. It returns a way below \<open>LLC_WAYS\<close> after \<open>k\<close>
  aging passes with \<open>k \<le> MAX_RRPV\<close> (so after at most \<open>MAX_RRPV + 1\<close> scans), and the
  only change to the state is those \<open>k\<close> passes over the set's row. When the set has
  an invalid way, there is no pass and the way is the lowest invalid one. Otherwise
  no scan before the last one saw a way at \<open>MAX_RRPV\<close>, and the way returned is the
  lowest one that the \<open>k\<close> passes have brought to \<open>MAX_RRPV\<close>. An aging pass adds
  one to exactly the cells of the row that are below \<open>MAX_RRPV\<close>.
\<close>

theorem FindVictimWay_terminates:
  assumes "victim_exists s seti"
  shows "\<exists>way k. FindVictimWay s seti
             = Some (way, s\<lparr>RRPV := (RRPV s)(seti := (age_pass ^^ k) (RRPV s seti))\<rparr>)
           \<and> way < LLC_WAYS \<and> k \<le> unat MAX_RRPV
           \<and> (\<forall>j<k. max_rrpv_way ((age_pass ^^ j) (RRPV s seti)) = None)
           \<and> (if \<exists>w<LLC_WAYS. \<not> valid_entries s seti w
               then k = 0 \<and> \<not> valid_entries s seti way \<and> (\<forall>j<way. valid_entries s seti j)
               else max_rrpv_way ((age_pass ^^ k) (RRPV s seti)) = Some way
                    \<and> (age_pass ^^ k) (RRPV s seti) way = MAX_RRPV
                    \<and> (\<forall>j<way. (age_pass ^^ k) (RRPV s seti) j \<noteq> MAX_RRPV))
           \<and> (\<forall>r w. age_pass r w = (if w < LLC_WAYS \<and> r w < MAX_RRPV then r w + 1 else r w))
           \<and> (\<forall>r. max_rrpv_way r = None \<longleftrightarrow> (\<forall>w<LLC_WAYS. r w \<noteq> MAX_RRPV))"
proof -
  from FindVictimWay_cases [OF assms] obtain way k where
    res: "FindVictimWay s seti
       = Some (way, s\<lparr>RRPV := (RRPV s)(seti := (age_pass ^^ k) (RRPV s seti))\<rparr>)"
    and bnd: "way < LLC_WAYS" "k \<le> unat MAX_RRPV"
    and nf: "\<forall>j<k. max_rrpv_way ((age_pass ^^ j) (RRPV s seti)) = None"
    and ex: "if \<exists>w<LLC_WAYS. \<not> valid_entries s seti w
             then k = 0 \<and> \<not> valid_entries s seti way \<and> (\<forall>j<way. valid_entries s seti j)
             else max_rrpv_way ((age_pass ^^ k) (RRPV s seti)) = Some way"
    by blast
  have ex': "if \<exists>w<LLC_WAYS. \<not> valid_entries s seti w
             then k = 0 \<and> \<not> valid_entries s seti way \<and> (\<forall>j<way. valid_entries s seti j)
             else max_rrpv_way ((age_pass ^^ k) (RRPV s seti)) = Some way
                  \<and> (age_pass ^^ k) (RRPV s seti) way = MAX_RRPV
                  \<and> (\<forall>j<way. (age_pass ^^ k) (RRPV s seti) j \<noteq> MAX_RRPV)"
  proof (cases "\<exists>w<LLC_WAYS. \<not> valid_entries s seti w")
    case True
    with ex show ?thesis by simp
  next
    case False
    with ex have "max_rrpv_way ((age_pass ^^ k) (RRPV s seti)) = Some way" by simp
    with max_rrpv_way_SomeD [OF this] False show ?thesis by simp
  qed
  have age: "\<forall>r w. age_pass r w = (if w < LLC_WAYS \<and> r w < MAX_RRPV then r w + 1 else r w)"
    by (simp add: age_pass_apply)
  have none: "\<forall>r. max_rrpv_way r = None \<longleftrightarrow> (\<forall>w<LLC_WAYS. r w \<noteq> MAX_RRPV)"
    by (simp add: max_rrpv_way_def scan_ways_None_iff)
  from res bnd nf ex' age none show ?thesis
    by (intro exI [of _ way] exI [of _ k] conjI)
qed

theorem FindVictimWay_terminates_witness:
  "victim_exists full_state 0
   \<and> (\<exists>way k. FindVictimWay full_state 0
             = Some (way, full_state\<lparr>RRPV := (RRPV full_state)(0 := (age_pass ^^ k) (RRPV full_state 0))\<rparr>)
           \<and> way < LLC_WAYS \<and> k \<le> unat MAX_RRPV
           \<and> max_rrpv_way ((age_pass ^^ k) (RRPV full_state 0)) = Some way
           \<and> (age_pass ^^ k) (RRPV full_state 0) way = MAX_RRPV)
   \<and> FindVictimWay full_state 0
       = Some (0, full_state\<lparr>RRPV := (RRPV full_state)(0 := (age_pass ^^ 3) (RRPV full_state 0))\<rparr>)
   \<and> (age_pass ^^ 3) (RRPV full_state 0) 0 = MAX_RRPV"
proof -
  have full: "\<not> (\<exists>w<LLC_WAYS. \<not> valid_entries full_state 0 w)"
    by (simp add: full_state_def)
  from FindVictimWay_terminates [OF victim_exists_full_state] full
  have "\<exists>way k. FindVictimWay full_state 0
             = Some (way, full_state\<lparr>RRPV := (RRPV full_state)(0 := (age_pass ^^ k) (RRPV full_state 0))\<rparr>)
           \<and> way < LLC_WAYS \<and> k \<le> unat MAX_RRPV
           \<and> max_rrpv_way ((age_pass ^^ k) (RRPV full_state 0)) = Some way
           \<and> (age_pass ^^ k) (RRPV full_state 0) way = MAX_RRPV"
    by (simp only: if_False) blast
  moreover have "\<forall>w<LLC_WAYS. valid_entries full_state 0 w \<and> RRPV full_state 0 w = 0"
    by (simp add: full_state_def)
  note FindVictimWay_all_zero [OF this]
  ultimately show ?thesis using victim_exists_full_state by simp
qed

text \<open>
  C8. When the set has an invalid way, \<open>GetVictimInSet\<close> returns the lowest-index
  invalid way, and among the per-line arrays only the cell of that way in that set
  changes; in particular no \<open>rrpv\<close> is aged.
\<close>

theorem GetVictimInSet_invalid_way:
  assumes "\<exists>w<LLC_WAYS. \<not> valid_entries s seti w"
  shows "\<exists>way s'. GetVictimInSet s cpu seti current_set PC paddr type = Some (way, s')
           \<and> way < LLC_WAYS \<and> \<not> valid_entries s seti way \<and> (\<forall>j<way. valid_entries s seti j)
           \<and> (\<forall>t w. (t, w) \<noteq> (seti, way) \<longrightarrow>
                 RRPV s' t w = RRPV s t w \<and> valid_entries s' t w = valid_entries s t w
                 \<and> sig_mem s' t w = sig_mem s t w \<and> has_hit s' t w = has_hit s t w
                 \<and> is_streaming s' t w = is_streaming s t w)"
proof -
  from assms have ve: "victim_exists s seti"
    by (auto simp add: victim_exists_def)
  from GetVictimInSet_cases [OF ve, of cpu current_set PC paddr type] assms
  obtain way where
    res: "GetVictimInSet s cpu seti current_set PC paddr type
           = Some (way, install_line (evict_penalty
               ((stream_detect s (GetSignature PC) (drop_bit 6 paddr))
                  \<lparr>RRPV := (RRPV s)(seti := (age_pass ^^ 0) (RRPV s seti))\<rparr>) seti way)
               seti way (GetSignature PC))"
    and way: "way < LLC_WAYS" "\<not> valid_entries s seti way" "\<forall>j<way. valid_entries s seti j"
    by auto
  let ?s' = "install_line (evict_penalty
               ((stream_detect s (GetSignature PC) (drop_bit 6 paddr))
                  \<lparr>RRPV := (RRPV s)(seti := (age_pass ^^ 0) (RRPV s seti))\<rparr>) seti way)
               seti way (GetSignature PC)"
  have "RRPV ?s' t w = RRPV s t w \<and> valid_entries ?s' t w = valid_entries s t w
        \<and> sig_mem ?s' t w = sig_mem s t w \<and> has_hit ?s' t w = has_hit s t w
        \<and> is_streaming ?s' t w = is_streaming s t w" if "(t, w) \<noteq> (seti, way)" for t w
    using that
    by (auto simp add: install_line_RRPV install_line_lines evict_penalty_frame stream_detect_frame)
  with res way show ?thesis by blast
qed

theorem GetVictimInSet_invalid_way_witness:
  "(\<exists>w<LLC_WAYS. \<not> valid_entries InitReplacementState 0 w)
   \<and> (\<exists>way s'. GetVictimInSet InitReplacementState 0 0 [] 0 0 0 = Some (way, s')
           \<and> way < LLC_WAYS \<and> \<not> valid_entries InitReplacementState 0 way
           \<and> (\<forall>j<way. valid_entries InitReplacementState 0 j)
           \<and> (\<forall>t w. (t, w) \<noteq> (0, way) \<longrightarrow>
                 RRPV s' t w = RRPV InitReplacementState t w
                 \<and> valid_entries s' t w = valid_entries InitReplacementState t w
                 \<and> sig_mem s' t w = sig_mem InitReplacementState t w
                 \<and> has_hit s' t w = has_hit InitReplacementState t w
                 \<and> is_streaming s' t w = is_streaming InitReplacementState t w))"
proof -
  have h: "\<exists>w<LLC_WAYS. \<not> valid_entries InitReplacementState 0 w"
    by (auto simp add: InitReplacementState_def LLC_WAYS_def intro!: exI [of _ 0])
  from GetVictimInSet_invalid_way [OF h, of 0 "[]" 0 0 0] h show ?thesis by blast
qed


text \<open>
  C9. When every way of the set is valid, so that the call replaces a valid line,
  \<open>GetVictimInSet\<close> subtracts one from the \<open>SHCT\<close> entry of the replaced line's
  stored signature if the line was never hit and the entry is above 0, and adds one
  to \<open>stream_misses\<close> if the line was never hit and was marked streaming. A
  replaced line that was hit changes neither \<open>SHCT\<close> nor \<open>stream_misses\<close>.
\<close>

theorem GetVictimInSet_eviction_penalty:
  assumes "\<forall>w<LLC_WAYS. valid_entries s seti w" and "victim_exists s seti"
  shows "\<exists>way s'. GetVictimInSet s cpu seti current_set PC paddr type = Some (way, s')
           \<and> way < LLC_WAYS
           \<and> SHCT s' =
               (let old_sig = unat (sig_mem s seti way)
                in if \<not> has_hit s seti way \<and> 0 < SHCT s old_sig
                   then (SHCT s)(old_sig := SHCT s old_sig - 1) else SHCT s)
           \<and> stream_misses s' =
               (if \<not> has_hit s seti way \<and> is_streaming s seti way
                then stream_misses s + 1 else stream_misses s)
           \<and> (has_hit s seti way \<longrightarrow> SHCT s' = SHCT s \<and> stream_misses s' = stream_misses s)"
proof -
  from GetVictimInSet_cases [OF assms(2), of cpu current_set PC paddr type]
  obtain way k where
    res: "GetVictimInSet s cpu seti current_set PC paddr type
           = Some (way, install_line (evict_penalty
               ((stream_detect s (GetSignature PC) (drop_bit 6 paddr))
                  \<lparr>RRPV := (RRPV s)(seti := (age_pass ^^ k) (RRPV s seti))\<rparr>) seti way)
               seti way (GetSignature PC))"
    and way: "way < LLC_WAYS"
    by blast
  from way assms(1) have v: "valid_entries s seti way" by simp
  show ?thesis
    unfolding res using way v
    by (simp add: install_line_frame evict_penalty_SHCT evict_penalty_stream_misses
        stream_detect_frame Let_def)
qed

theorem GetVictimInSet_eviction_penalty_witness:
  "victim_exists full_state 0
   \<and> (\<exists>way s'. GetVictimInSet full_state 0 0 [] 0 0 0 = Some (way, s')
           \<and> way < LLC_WAYS
           \<and> SHCT s' =
               (let old_sig = unat (sig_mem full_state 0 way)
                in if \<not> has_hit full_state 0 way \<and> 0 < SHCT full_state old_sig
                   then (SHCT full_state)(old_sig := SHCT full_state old_sig - 1)
                   else SHCT full_state)
           \<and> stream_misses s' =
               (if \<not> has_hit full_state 0 way \<and> is_streaming full_state 0 way
                then stream_misses full_state + 1 else stream_misses full_state)
           \<and> (has_hit full_state 0 way
                \<longrightarrow> SHCT s' = SHCT full_state \<and> stream_misses s' = stream_misses full_state))"
proof -
  have h: "\<forall>w<LLC_WAYS. valid_entries full_state 0 w"
    by (simp add: full_state_def)
  from GetVictimInSet_eviction_penalty [OF h victim_exists_full_state, of 0 "[]" 0 0 0]
    victim_exists_full_state
  show ?thesis by blast
qed

text \<open>
  C10. \<open>GetVictimInSet\<close> never reads \<open>current_set\<close>: two calls from the same policy
  state with the same set, PC, address and type return the same way and the same
  state, whatever the two block arrays hold.
\<close>

theorem GetVictimInSet_ignores_current_set:
  "GetVictimInSet s cpu seti current_set PC paddr type
     = GetVictimInSet s cpu seti current_set' PC paddr type"
  by (simp add: GetVictimInSet_def)

end
